theory Spec2Isabelle
  imports Main "HOL-Library.AList" "HOL-Library.Char_ord" "HOL-Library.List_Lexorder"
begin

section \<open>Python values used by the TIMIT transcript modules\<close>

text \<open>
  The two modules \<^verbatim>\<open>timit/transcript_character.py\<close> and
  \<^verbatim>\<open>timit/transcript_phone.py\<close> work on strings, lists, sets and dicts.
  A Python string is a \<^typ>\<open>string\<close> (one \<^typ>\<open>char\<close> per character; only the
  ASCII range gets a meaning from \<open>upper\<close>, \<open>lower\<close> and \<open>isspace\<close>).
  A text file is the string of its content, read with universal newlines. A dict is an association list in
  insertion order, written with \<^const>\<open>AList.update\<close> and read with
  \<^const>\<open>map_of\<close>, which is how a Python dict behaves: assigning to a key that is
  present replaces the value in place, assigning to a new key appends. A set is a
  HOL set; \<open>sorted(list(s))\<close> is \<^const>\<open>sorted_list_of_set\<close> for the
  lexicographic order on strings by character code. Every exception the code can
  raise is a value of \<open>error\<close>, returned as \<open>Inl\<close>.
\<close>

datatype error = KeyError | IndexError | ValueError | IOError

subsection \<open>Strings\<close>

definition isspace :: "char \<Rightarrow> bool" where
  \<comment> \<open>the ASCII characters for which \<open>str.isspace\<close> holds: TAB..CR, FS..US, space\<close>
  "isspace c = (let n = (of_char c :: nat) in (9 \<le> n \<and> n \<le> 13) \<or> (28 \<le> n \<and> n \<le> 32))"

definition strip :: "string \<Rightarrow> string" where
  "strip s = rev (dropWhile isspace (rev (dropWhile isspace s)))"

definition upper_char :: "char \<Rightarrow> char" where
  "upper_char c = (let n = (of_char c :: nat) in if 97 \<le> n \<and> n \<le> 122 then char_of (n - 32) else c)"

definition lower_char :: "char \<Rightarrow> char" where
  "lower_char c = (let n = (of_char c :: nat) in if 65 \<le> n \<and> n \<le> 90 then char_of (n + 32) else c)"

definition upper :: "string \<Rightarrow> string" where
  "upper s = map upper_char s"

definition lower :: "string \<Rightarrow> string" where
  "lower s = map lower_char s"

text \<open>\<open>s.split(sep)\<close> for a non-empty separator: the pieces between the
  non-overlapping occurrences of \<open>sep\<close>, found left to right. Python raises
  ValueError for the empty separator; the callers below check that first.\<close>

fun split_from :: "string \<Rightarrow> string \<Rightarrow> string \<Rightarrow> string list" where
  "split_from sep cur [] = [cur]"
| "split_from sep cur (c # cs) =
     (if sep \<noteq> [] \<and> take (length sep) (c # cs) = sep
      then cur # split_from sep [] (drop (length sep - 1) cs)
      else split_from sep (cur @ [c]) cs)"

definition split_sep :: "string \<Rightarrow> string \<Rightarrow> string list" where
  "split_sep sep s = split_from sep [] s"

text \<open>\<open>s.split()\<close>: the maximal runs of non-whitespace characters.\<close>

fun split_ws_from :: "string \<Rightarrow> string \<Rightarrow> string list" where
  "split_ws_from cur [] = (if cur = [] then [] else [cur])"
| "split_ws_from cur (c # cs) =
     (if isspace c then (if cur = [] then split_ws_from [] cs else cur # split_ws_from [] cs)
      else split_ws_from (cur @ [c]) cs)"

definition split_ws :: "string \<Rightarrow> string list" where
  "split_ws s = split_ws_from [] s"

text \<open>\<open>sep.join(xs)\<close>.\<close>

fun join :: "string \<Rightarrow> string list \<Rightarrow> string" where
  "join sep [] = []"
| "join sep [x] = x"
| "join sep (x # y # ys) = x @ sep @ join sep (y # ys)"

text \<open>Reading a text file: \<open>open(path, 'r')\<close> translates a carriage return
  followed by a line feed, and a carriage return alone, into one line feed.\<close>

fun universal_newlines :: "string \<Rightarrow> string" where
  "universal_newlines (a # b # cs) =
     (if a = CHR 0x0D \<and> b = CHR 0x0A then CHR 0x0A # universal_newlines cs
      else if a = CHR 0x0D then CHR 0x0A # universal_newlines (b # cs)
      else a # universal_newlines (b # cs))"
| "universal_newlines [a] = (if a = CHR 0x0D then [CHR 0x0A] else [a])"
| "universal_newlines [] = []"

text \<open>Cutting the translated text after every line feed: each line keeps its line
  feed, a last line without one is kept too.\<close>

fun split_lines :: "string \<Rightarrow> string list" where
  "split_lines [] = []"
| "split_lines (c # cs) =
     (if c = CHR 0x0A then [c] # split_lines cs
      else (case split_lines cs of [] \<Rightarrow> [[c]] | l # ls \<Rightarrow> (c # l) # ls))"

text \<open>The lines of a text file, as iterating over the file or \<open>readlines()\<close>
  yields them.\<close>

definition lines_of :: "string \<Rightarrow> string list" where
  "lines_of content = split_lines (universal_newlines content)"

text \<open>\<open>f.write('%s\n' % x)\<close> for every \<open>x\<close> of a list, into a fresh file.\<close>

definition write_lines :: "string list \<Rightarrow> string" where
  "write_lines xs = concat (map (\<lambda>x. x @ [CHR 0x0A]) xs)"

text \<open>\<open>str(n)\<close> for a non-negative integer.\<close>

fun str_nat :: "nat \<Rightarrow> string" where
  "str_nat n = (if n < 10 then [char_of (48 + n)] else str_nat (n div 10) @ [char_of (48 + n mod 10)])"

declare str_nat.simps [simp del]

section \<open>Char2idx\<close>

record char2idx =
  space_mark :: string
  capital_divide :: bool
  double_letter :: bool
  remove_list :: "string list"
  map_dict :: "(string \<times> nat) list"

text \<open>The loop of \<open>__init__\<close> over the lines of the vocabulary file, with the
  dict and \<open>vocab_count\<close> as they stand before the line.\<close>

fun read_vocab :: "string list \<Rightarrow> string list \<Rightarrow> (string \<times> nat) list \<Rightarrow> nat \<Rightarrow> (string \<times> nat) list \<times> nat" where
  "read_vocab [] rl m vocab_count = (m, vocab_count)"
| "read_vocab (line # ls) rl m vocab_count =
     (let char = strip line in
      if char \<in> set rl then read_vocab ls rl m vocab_count
      else read_vocab ls rl (AList.update char vocab_count m) (vocab_count + 1))"

definition add_sos_eos :: "(string \<times> nat) list \<times> nat \<Rightarrow> (string \<times> nat) list" where
  "add_sos_eos mc = (case mc of (m, vocab_count) \<Rightarrow>
     AList.update ''>'' (vocab_count + 1) (AList.update ''<'' vocab_count m))"

definition Char2idx_init :: "string \<Rightarrow> string \<Rightarrow> bool \<Rightarrow> bool \<Rightarrow> string list \<Rightarrow> char2idx" where
  "Char2idx_init vocab_file sm cd dl rl =
     \<lparr> space_mark = sm, capital_divide = cd, double_letter = dl, remove_list = rl,
       map_dict = add_sos_eos (read_vocab (lines_of vocab_file) rl [] 0) \<rparr>"

text \<open>The double-letter loop \<open>for i in range(start, stop)\<close> shared by the
  capital-divided and the double-letter branch of \<open>__call__\<close>: \<open>i\<close> is the loop
  variable, the result is the skip flag and the index list after the loop.\<close>

function body_scan :: "(string \<times> nat) list \<Rightarrow> string \<Rightarrow> nat \<Rightarrow> nat \<Rightarrow> bool \<Rightarrow> nat list \<Rightarrow> error + (bool \<times> nat list)" where
  "body_scan m w i stop skip_flag index_list =
     (if i < stop then
        (if skip_flag then body_scan m w (Suc i) stop False index_list
         else (case map_of m (take 2 (drop i w)) of
                 Some k \<Rightarrow> body_scan m w (Suc i) stop True (index_list @ [k])
               | None \<Rightarrow> (case map_of m [w ! i] of
                            None \<Rightarrow> Inl KeyError
                          | Some k \<Rightarrow> body_scan m w (Suc i) stop False (index_list @ [k]))))
      else Inr (skip_flag, index_list))"
  by pat_completeness auto
termination
  by (relation "measure (\<lambda>(m, w, i, stop, skip_flag, index_list). stop - i)") auto

declare body_scan.simps [simp del]

text \<open>The final character: \<open>if not skip_flag: index_list.append(map_dict[w[-1]])\<close>.\<close>

definition final_char :: "(string \<times> nat) list \<Rightarrow> string \<Rightarrow> bool \<times> nat list \<Rightarrow> error + nat list" where
  "final_char m w r = (case r of (skip_flag, index_list) \<Rightarrow>
     if \<not> skip_flag then
       (if w = [] then Inl IndexError
        else (case map_of m [last w] of None \<Rightarrow> Inl KeyError | Some k \<Rightarrow> Inr (index_list @ [k])))
     else Inr index_list)"

text \<open>One round of \<open>for word in str_char.split(self.space_mark)\<close>.\<close>

definition capital_word :: "(string \<times> nat) list \<Rightarrow> string \<Rightarrow> nat list \<Rightarrow> error + nat list" where
  "capital_word m word index_list =
     (case word of
        [] \<Rightarrow> Inl IndexError
      | c # _ \<Rightarrow>
          (case map_of m (upper [c]) of
             None \<Rightarrow> Inl KeyError
           | Some k \<Rightarrow>
               (case body_scan m word 1 (length word - 1) False (index_list @ [k]) of
                  Inl e \<Rightarrow> Inl e
                | Inr r \<Rightarrow> final_char m word r)))"

fun capital_words :: "(string \<times> nat) list \<Rightarrow> string list \<Rightarrow> nat list \<Rightarrow> error + nat list" where
  "capital_words m [] index_list = Inr index_list"
| "capital_words m (word # ws) index_list =
     (case capital_word m word index_list of
        Inl e \<Rightarrow> Inl e
      | Inr index_list' \<Rightarrow> capital_words m ws index_list')"

text \<open>\<open>list(map(lambda x: self.map_dict[x], xs))\<close>: the first missing key raises.\<close>

fun lookup_all :: "(string \<times> nat) list \<Rightarrow> string list \<Rightarrow> error + nat list" where
  "lookup_all m [] = Inr []"
| "lookup_all m (x # xs) =
     (case map_of m x of
        None \<Rightarrow> Inl KeyError
      | Some k \<Rightarrow> (case lookup_all m xs of Inl e \<Rightarrow> Inl e | Inr ks \<Rightarrow> Inr (k # ks)))"

definition Char2idx_call :: "char2idx \<Rightarrow> string \<Rightarrow> error + nat list" where
  "Char2idx_call self str_char =
     (if capital_divide self then
        (if space_mark self = [] then Inl ValueError
         else capital_words (map_dict self) (split_sep (space_mark self) str_char) [])
      else if double_letter self then
        (case body_scan (map_dict self) str_char 0 (length str_char - 1) False [] of
           Inl e \<Rightarrow> Inl e
         | Inr r \<Rightarrow> final_char (map_dict self) str_char r)
      else lookup_all (map_dict self) (map (\<lambda>c. [c]) str_char))"

section \<open>Phone2idx\<close>

text \<open>\<open>Phone2idx.__init__\<close> runs the same loop over the vocabulary file as
  \<open>Char2idx.__init__\<close>, statement for statement, and adds the same two entries.\<close>

record phone2idx =
  phone_map_dict :: "(string \<times> nat) list"

definition Phone2idx_init :: "string \<Rightarrow> string list \<Rightarrow> phone2idx" where
  "Phone2idx_init vocab_file rl =
     \<lparr> phone_map_dict = add_sos_eos (read_vocab (lines_of vocab_file) rl [] 0) \<rparr>"

definition Phone2idx_call :: "phone2idx \<Rightarrow> string \<Rightarrow> error + nat list" where
  "Phone2idx_call self str_phone =
     (let phone_list = split_sep '' '' str_phone
      in lookup_all (phone_map_dict self) phone_list)"

section \<open>read\_char\<close>

definition DOUBLE_LETTERS :: "string list" where
  "DOUBLE_LETTERS = [''aa'', ''bb'', ''cc'', ''dd'', ''ee'', ''ff'', ''gg'', ''hh'', ''ii'', ''jj'',
                     ''kk'', ''ll'', ''mm'', ''nn'', ''oo'', ''pp'', ''qq'', ''rr'', ''ss'', ''tt'',
                     ''uu'', ''vv'', ''ww'', ''xx'', ''yy'', ''zz'']"

definition SPACE :: string where
  "SPACE = ''_''"

definition APOSTROPHE :: string where
  "APOSTROPHE = [CHR 0x27]"

text \<open>\<open>re.sub(r'[\":;!?,.-]+', '', s)\<close>: every character of the class is removed.\<close>

definition punctuation :: "char list" where
  "punctuation = [CHR 0x22, CHR '':'', CHR '';'', CHR ''!'', CHR ''?'', CHR '','', CHR ''.'', CHR ''-'']"

definition remove_punct :: "string \<Rightarrow> string" where
  "remove_punct s = filter (\<lambda>c. c \<notin> set punctuation) s"

text \<open>\<open>'  ' in t\<close> and \<open>re.sub(r'  ', ' ', t)\<close> (non-overlapping matches, left to
  right), then the loop \<open>while '  ' in transcript\<close>.\<close>

fun has_double_space :: "string \<Rightarrow> bool" where
  "has_double_space (a # b # cs) = ((a = CHR '' '' \<and> b = CHR '' '') \<or> has_double_space (b # cs))"
| "has_double_space cs = False"

fun sub_double_space :: "string \<Rightarrow> string" where
  "sub_double_space (a # b # cs) =
     (if a = CHR '' '' \<and> b = CHR '' '' then CHR '' '' # sub_double_space cs
      else a # sub_double_space (b # cs))"
| "sub_double_space cs = cs"

function remove_double_spaces :: "string \<Rightarrow> string" where
  "remove_double_spaces t =
     (if has_double_space t then remove_double_spaces (sub_double_space t) else t)"
  by pat_completeness auto
termination
proof (relation "measure length")
  show "wf (measure length)" by simp
next
  fix t :: string
  have le: "length (sub_double_space s) \<le> length s" for s
    by (induction s rule: sub_double_space.induct) auto
  have "has_double_space s \<Longrightarrow> length (sub_double_space s) < length s" for s
  proof (induction s rule: sub_double_space.induct)
    case (1 a b cs)
    then show ?case using le [of cs] by (auto simp: less_Suc_eq_le)
  qed auto
  then show "has_double_space t \<Longrightarrow> (sub_double_space t, t) \<in> measure length"
    by simp
qed

declare remove_double_spaces.simps [simp del]

text \<open>The two guards \<open>if transcript[0] == ' '\<close> and \<open>if transcript[-1] == ' '\<close>:
  indexing the empty string raises.\<close>

definition trim_first :: "string \<Rightarrow> error + string" where
  "trim_first t = (case t of [] \<Rightarrow> Inl IndexError
                   | c # cs \<Rightarrow> Inr (if c = CHR '' '' then cs else t))"

definition trim_last :: "string \<Rightarrow> error + string" where
  "trim_last t = (if t = [] then Inl IndexError
                  else Inr (if last t = CHR '' '' then butlast t else t))"

definition clean_transcript :: "string \<Rightarrow> error + string" where
  "clean_transcript line0 =
     (let line = remove_punct (lower (strip line0));
          transcript = join '' '' (drop 2 (split_sep '' '' line));
          transcript = remove_double_spaces transcript
      in case trim_first transcript of
           Inl e \<Rightarrow> Inl e
         | Inr transcript \<Rightarrow> trim_last transcript)"

text \<open>\<open>speaker + '_' + utt_index\<close> from the path of the label file.\<close>

definition utt_name_of :: "string \<Rightarrow> error + string" where
  "utt_name_of label_path =
     (let parts = split_sep ''/'' label_path in
      if length parts < 2 then Inl IndexError
      else (let speaker = parts ! (length parts - 2);
                utt_index = hd (split_sep ''.'' (last parts))
            in Inr (speaker @ ''_'' @ utt_index)))"

text \<open>The double-letter loop of the vocabulary scan, on \<open>char_capital_set\<close>.\<close>

function set_scan :: "string \<Rightarrow> nat \<Rightarrow> nat \<Rightarrow> bool \<Rightarrow> string set \<Rightarrow> bool \<times> string set" where
  "set_scan w i stop skip_flag S =
     (if i < stop then
        (if skip_flag then set_scan w (Suc i) stop False S
         else if take 2 (drop i w) \<in> set DOUBLE_LETTERS
              then set_scan w (Suc i) stop True (insert (take 2 (drop i w)) S)
              else set_scan w (Suc i) stop False (insert [w ! i] S))
      else (skip_flag, S))"
  by pat_completeness auto
termination
  by (relation "measure (\<lambda>(w, i, stop, skip_flag, S). stop - i)") auto

declare set_scan.simps [simp del]

text \<open>One round of \<open>for word in transcript.split(' ')\<close>.\<close>

definition capital_set_word :: "string \<Rightarrow> string set \<Rightarrow> error + string set" where
  "capital_set_word word0 S =
     (if length word0 = 1 then Inr (insert (upper word0) S)
      else (case word0 of
              [] \<Rightarrow> Inl IndexError
            | c # cs \<Rightarrow>
                (let word = upper [c] @ cs;
                     S1 = insert (upper (take 1 word)) S;
                     r = set_scan word 1 (length word - 1) False S1
                 in Inr (if \<not> fst r then insert [last word] (snd r) else snd r))))"

fun capital_set_words :: "string list \<Rightarrow> string set \<Rightarrow> error + string set" where
  "capital_set_words [] S = Inr S"
| "capital_set_words (word # ws) S =
     (case capital_set_word word S of Inl e \<Rightarrow> Inl e | Inr S' \<Rightarrow> capital_set_words ws S')"

text \<open>\<open>re.sub(r'\s', SPACE, transcript)\<close>.\<close>

definition space_to_mark :: "string \<Rightarrow> string" where
  "space_to_mark t = concat (map (\<lambda>c. if isspace c then SPACE else [c]) t)"

text \<open>The state of the first loop of \<open>read_char\<close>: \<open>trans_dict\<close>, \<open>char_set\<close>
  and \<open>char_capital_set\<close>. A label file is given as its path and its content.\<close>

type_synonym char_scan = "(string \<times> string) list \<times> string set \<times> string set"

definition read_char_file :: "string \<times> string \<Rightarrow> char_scan \<Rightarrow> error + char_scan" where
  "read_char_file lf st =
     (case lf of (label_path, content) \<Rightarrow>
      case st of (trans_dict, char_set, char_capital_set) \<Rightarrow>
      (case lines_of content of
         [] \<Rightarrow> Inl IndexError
       | l # ls \<Rightarrow>
         (case utt_name_of label_path of
            Inl e \<Rightarrow> Inl e
          | Inr utt_name \<Rightarrow>
            (case clean_transcript (last (l # ls)) of
               Inl e \<Rightarrow> Inl e
             | Inr transcript \<Rightarrow>
               (case capital_set_words (split_sep '' '' transcript) char_capital_set of
                  Inl e \<Rightarrow> Inl e
                | Inr char_capital_set' \<Rightarrow>
                    (let transcript' = space_to_mark transcript;
                         char_set' = fold (\<lambda>c. insert [c]) transcript' char_set
                     in Inr (AList.update utt_name transcript' trans_dict,
                             char_set', char_capital_set')))))))"

fun read_char_scan :: "(string \<times> string) list \<Rightarrow> char_scan \<Rightarrow> error + char_scan" where
  "read_char_scan [] st = Inr st"
| "read_char_scan (lf # lfs) st =
     (case read_char_file lf st of Inl e \<Rightarrow> Inl e | Inr st' \<Rightarrow> read_char_scan lfs st')"

definition char_list :: "string set \<Rightarrow> string list" where
  "char_list char_set = sorted_list_of_set (char_set - {SPACE} - {APOSTROPHE}) @ [SPACE, APOSTROPHE]"

definition char_capital_list :: "string set \<Rightarrow> string list" where
  "char_capital_list char_capital_set = sorted_list_of_set (char_capital_set - {APOSTROPHE}) @ [APOSTROPHE]"

text \<open>The two vocabulary files \<^verbatim>\<open>character.txt\<close> and
  \<^verbatim>\<open>character_capital_divide.txt\<close>: \<open>None\<close> is a file that does not exist.\<close>

type_synonym char_vocab_files = "string option \<times> string option"

definition save_char_vocab :: "bool \<Rightarrow> string set \<Rightarrow> string set \<Rightarrow> char_vocab_files \<Rightarrow> char_vocab_files" where
  "save_char_vocab save_vocab_file char_set char_capital_set files =
     (if save_vocab_file
      then (Some (write_lines (char_list char_set)),
            Some (write_lines (char_capital_list char_capital_set)))
      else files)"

text \<open>One round of the tokenize loop over \<open>trans_dict.items()\<close>.\<close>

definition tokenize_char :: "char2idx \<Rightarrow> char2idx \<Rightarrow> bool \<Rightarrow> string \<Rightarrow> error + string list" where
  "tokenize_char c2i c2i_capital is_test transcript =
     (if is_test then Inr [transcript, transcript]
      else (case Char2idx_call c2i transcript of
              Inl e \<Rightarrow> Inl e
            | Inr char_indices \<Rightarrow>
              (case Char2idx_call c2i_capital transcript of
                 Inl e \<Rightarrow> Inl e
               | Inr char_indices_capital \<Rightarrow>
                   Inr [join '' '' (map str_nat char_indices),
                        join '' '' (map str_nat char_indices_capital)])))"

fun tokenize_all :: "('v \<Rightarrow> error + string list) \<Rightarrow> (string \<times> 'v) list \<Rightarrow> error + (string \<times> string list) list" where
  "tokenize_all f [] = Inr []"
| "tokenize_all f ((utt_name, v) # rest) =
     (case f v of
        Inl e \<Rightarrow> Inl e
      | Inr r \<Rightarrow> (case tokenize_all f rest of Inl e \<Rightarrow> Inl e | Inr rs \<Rightarrow> Inr ((utt_name, r) # rs)))"

text \<open>\<open>read_char\<close>: the vocabulary files after the call, and the result or the
  exception. The files are written after the scan and before tokenizing.\<close>

definition read_char :: "(string \<times> string) list \<Rightarrow> char_vocab_files \<Rightarrow> bool \<Rightarrow> bool \<Rightarrow>
    char_vocab_files \<times> (error + (string \<times> string list) list)" where
  "read_char label_files files save_vocab_file is_test =
     (case read_char_scan label_files ([], {}, {}) of
        Inl e \<Rightarrow> (files, Inl e)
      | Inr (trans_dict, char_set, char_capital_set) \<Rightarrow>
          (let files' = save_char_vocab save_vocab_file char_set char_capital_set files in
           (files',
            (case files' of
               (Some char_vocab, Some char_capital_vocab) \<Rightarrow>
                 tokenize_all
                   (tokenize_char (Char2idx_init char_vocab ''_'' False False [])
                                  (Char2idx_init char_capital_vocab ''_'' True False [])
                                  is_test)
                   trans_dict
             | _ \<Rightarrow> Inl IOError))))"

section \<open>map\_phone2phone and read\_phone\<close>

text \<open>The loop of \<open>map_phone2phone\<close> over the lines of the mapping file
  \<^verbatim>\<open>phone2phone.txt\<close>, which is not part of the sources: it is the parameter
  \<open>map_file\<close> everywhere below. \<open>line[1]\<close> is read first, \<open>line[2]\<close> only for
  \<open>phone39\<close>; a line with too few fields raises.\<close>

fun read_phone_map :: "string list \<Rightarrow> string \<Rightarrow> (string \<times> string) list \<Rightarrow> error + (string \<times> string) list" where
  "read_phone_map [] label_type m = Inr m"
| "read_phone_map (l # ls) label_type m =
     (let line = split_ws (strip l) in
      if length line < 2 then Inl IndexError
      else if line ! 1 \<noteq> ''nan'' then
        (if label_type = ''phone48'' then read_phone_map ls label_type (AList.update (line ! 0) (line ! 1) m)
         else if label_type = ''phone39'' then
           (if length line < 3 then Inl IndexError
            else read_phone_map ls label_type (AList.update (line ! 0) (line ! 2) m))
         else read_phone_map ls label_type m)
      else read_phone_map ls label_type (AList.update (line ! 0) [] m))"

text \<open>\<open>while '' in mapped_phone_list: mapped_phone_list.remove('')\<close>.\<close>

function remove_empty :: "string list \<Rightarrow> string list" where
  "remove_empty xs = (if [] \<in> set xs then remove_empty (remove1 [] xs) else xs)"
  by pat_completeness auto
termination
proof (relation "measure length")
  show "wf (measure length)" by simp
next
  fix xs :: "string list"
  assume "[] \<in> set xs"
  then have "0 < length xs" by (rule length_pos_if_in_set)
  with \<open>[] \<in> set xs\<close> show "(remove1 [] xs, xs) \<in> measure length"
    by (simp add: length_remove1)
qed

declare remove_empty.simps [simp del]

definition map_phones :: "(string \<times> string) list \<Rightarrow> string list \<Rightarrow> string list" where
  "map_phones m phone_list =
     map (\<lambda>p. case map_of m p of Some v \<Rightarrow> v | None \<Rightarrow> p) phone_list"

definition map_phone2phone :: "string list \<Rightarrow> string \<Rightarrow> string \<Rightarrow> error + string list" where
  "map_phone2phone phone_list label_type map_file =
     (if label_type = ''phone61'' then Inr phone_list
      else (case read_phone_map (lines_of map_file) label_type [] of
              Inl e \<Rightarrow> Inl e
            | Inr m \<Rightarrow> Inr (remove_empty (map_phones m phone_list))))"

text \<open>The first loop of \<open>read_phone\<close>: the three symbol sets, from the mapping file.\<close>

type_synonym phone_sets = "string set \<times> string set \<times> string set"

fun read_phone_sets :: "string list \<Rightarrow> phone_sets \<Rightarrow> error + phone_sets" where
  "read_phone_sets [] st = Inr st"
| "read_phone_sets (l # ls) st =
     (case st of (phone61_set, phone48_set, phone39_set) \<Rightarrow>
      (let line = split_ws (strip l) in
       if length line < 2 then Inl IndexError
       else if line ! 1 \<noteq> ''nan'' then
         (if length line < 3 then Inl IndexError
          else read_phone_sets ls (insert (line ! 0) phone61_set,
                                   insert (line ! 1) phone48_set,
                                   insert (line ! 2) phone39_set))
       else read_phone_sets ls (insert (line ! 0) phone61_set, phone48_set, phone39_set)))"

text \<open>The vocabulary files \<^verbatim>\<open>phone61.txt\<close>, \<^verbatim>\<open>phone48.txt\<close> and
  \<^verbatim>\<open>phone39.txt\<close>.\<close>

type_synonym phone_vocab_files = "string option \<times> string option \<times> string option"

definition save_phone_vocab :: "bool \<Rightarrow> phone_sets \<Rightarrow> phone_vocab_files \<Rightarrow> phone_vocab_files" where
  "save_phone_vocab save_vocab_file sets files =
     (case sets of (phone61_set, phone48_set, phone39_set) \<Rightarrow>
      if save_vocab_file
      then (Some (write_lines (sorted_list_of_set phone61_set)),
            Some (write_lines (sorted_list_of_set phone48_set)),
            Some (write_lines (sorted_list_of_set phone39_set)))
      else files)"

text \<open>The phones of one label file: \<open>line.strip().split(' ')[2]\<close> of every line.\<close>

fun phone61_list_of :: "string list \<Rightarrow> error + string list" where
  "phone61_list_of [] = Inr []"
| "phone61_list_of (l # ls) =
     (let line = split_sep '' '' (strip l) in
      if length line < 3 then Inl IndexError
      else (case phone61_list_of ls of Inl e \<Rightarrow> Inl e | Inr ps \<Rightarrow> Inr (line ! 2 # ps)))"

definition read_phone_file :: "string \<Rightarrow> string \<times> string \<Rightarrow> (string \<times> string list) list \<Rightarrow>
    error + (string \<times> string list) list" where
  "read_phone_file map_file lf trans_dict =
     (case lf of (label_path, content) \<Rightarrow>
      (case utt_name_of label_path of
         Inl e \<Rightarrow> Inl e
       | Inr utt_name \<Rightarrow>
         (case phone61_list_of (lines_of content) of
            Inl e \<Rightarrow> Inl e
          | Inr phone61_list \<Rightarrow>
            (case map_phone2phone phone61_list ''phone48'' map_file of
               Inl e \<Rightarrow> Inl e
             | Inr phone48_list \<Rightarrow>
               (case map_phone2phone phone61_list ''phone39'' map_file of
                  Inl e \<Rightarrow> Inl e
                | Inr phone39_list \<Rightarrow>
                    Inr (AList.update utt_name
                           [join '' '' phone61_list, join '' '' phone48_list, join '' '' phone39_list]
                           trans_dict))))))"

fun read_phone_scan :: "string \<Rightarrow> (string \<times> string) list \<Rightarrow> (string \<times> string list) list \<Rightarrow>
    error + (string \<times> string list) list" where
  "read_phone_scan map_file [] trans_dict = Inr trans_dict"
| "read_phone_scan map_file (lf # lfs) trans_dict =
     (case read_phone_file map_file lf trans_dict of
        Inl e \<Rightarrow> Inl e
      | Inr trans_dict' \<Rightarrow> read_phone_scan map_file lfs trans_dict')"

text \<open>One round of the tokenize loop of \<open>read_phone\<close>; the values of
  \<open>trans_dict\<close> are the three strings stored by the scan.\<close>

definition tokenize_phone :: "phone2idx \<Rightarrow> phone2idx \<Rightarrow> phone2idx \<Rightarrow> bool \<Rightarrow> string list \<Rightarrow> error + string list" where
  "tokenize_phone p61 p48 p39 is_test entry =
     (let trans_phone61 = entry ! 0; trans_phone48 = entry ! 1; trans_phone39 = entry ! 2 in
      if is_test then Inr [trans_phone61, trans_phone48, trans_phone39]
      else (case Phone2idx_call p61 trans_phone61 of
              Inl e \<Rightarrow> Inl e
            | Inr phone61_indices \<Rightarrow>
              (case Phone2idx_call p48 trans_phone48 of
                 Inl e \<Rightarrow> Inl e
               | Inr phone48_indices \<Rightarrow>
                 (case Phone2idx_call p39 trans_phone39 of
                    Inl e \<Rightarrow> Inl e
                  | Inr phone39_indices \<Rightarrow>
                      Inr [join '' '' (map str_nat phone61_indices),
                           join '' '' (map str_nat phone48_indices),
                           join '' '' (map str_nat phone39_indices)]))))"

text \<open>\<open>read_phone\<close>: the vocabulary files after the call, and the result or the
  exception. The files are written before the label files are read.\<close>

definition read_phone :: "string \<Rightarrow> (string \<times> string) list \<Rightarrow> phone_vocab_files \<Rightarrow> bool \<Rightarrow> bool \<Rightarrow>
    phone_vocab_files \<times> (error + (string \<times> string list) list)" where
  "read_phone map_file label_files files save_vocab_file is_test =
     (case read_phone_sets (lines_of map_file) ({}, {}, {}) of
        Inl e \<Rightarrow> (files, Inl e)
      | Inr sets \<Rightarrow>
          (let files' = save_phone_vocab save_vocab_file sets files in
           (files',
            (case read_phone_scan map_file label_files [] of
               Inl e \<Rightarrow> Inl e
             | Inr trans_dict \<Rightarrow>
                 (case files' of
                    (Some vocab61, Some vocab48, Some vocab39) \<Rightarrow>
                      tokenize_all
                        (tokenize_phone (Phone2idx_init vocab61 []) (Phone2idx_init vocab48 [])
                                        (Phone2idx_init vocab39 []) is_test)
                        trans_dict
                  | _ \<Rightarrow> Inl IOError)))))"

section \<open>Notions used to state the properties\<close>

text \<open>The symbols \<open>__init__\<close> keeps from a vocabulary file, in file order: the
  stripped lines that are not in the exclusion list.\<close>

definition retained :: "string \<Rightarrow> string list \<Rightarrow> string list" where
  "retained vocab_file rl = filter (\<lambda>char. char \<notin> set rl) (map strip (lines_of vocab_file))"

text \<open>The inverse of an index dict, \<open>{v: k for k, v in map_dict.items()}\<close>.\<close>

definition inverse_dict :: "(string \<times> nat) list \<Rightarrow> (nat \<times> string) list" where
  "inverse_dict m = map (\<lambda>(k, v). (v, k)) m"

text \<open>The rows of the mapping file as both loops read them: the fields of
  every stripped line.\<close>

definition table_rows :: "string \<Rightarrow> string list list" where
  "table_rows map_file = map (\<lambda>l. split_ws (strip l)) (lines_of map_file)"

text \<open>The row that decides the fate of the 61-phone symbol \<open>p\<close>: the last one
  whose first field is \<open>p\<close> (a later assignment to the same dict key wins).\<close>

definition last_row :: "string list list \<Rightarrow> string \<Rightarrow> string list option" where
  "last_row rows p = find (\<lambda>row. take 1 row = [p]) (rev rows)"

text \<open>What becomes of one symbol of the 61-phone sequence, as a list of zero or
  one symbols: a symbol with no row is kept (the empty string is dropped by the
  final loop), a symbol whose row has \<open>nan\<close> in the 48-phone column is dropped,
  any other symbol gives the entry of the target column.\<close>

definition collapse :: "string \<Rightarrow> string list list \<Rightarrow> string \<Rightarrow> string list" where
  "collapse label_type rows p =
     (case last_row rows p of
        None \<Rightarrow> (if p = [] then [] else [p])
      | Some row \<Rightarrow>
          (if row ! 1 = ''nan'' then []
           else [if label_type = ''phone48'' then row ! 1 else row ! 2]))"

text \<open>The dict entry that one row of the mapping file adds.\<close>

definition row_entry :: "string \<Rightarrow> string list \<Rightarrow> string \<times> string" where
  "row_entry label_type row =
     (row ! 0, if row ! 1 = ''nan'' then [] else if label_type = ''phone48'' then row ! 1 else row ! 2)"

text \<open>A finite set of symbols that are neither empty nor contain whitespace, as
  \<open>split()\<close> produces them.\<close>

definition clean_symbols :: "string set \<Rightarrow> bool" where
  "clean_symbols S = (finite S \<and> (\<forall>x\<in>S. x \<noteq> [] \<and> (\<forall>c\<in>set x. \<not> isspace c)))"

text \<open>The characters and the capital-divided units that the round of the first
  loop of \<open>read_char\<close> for one label file adds to the two sets.\<close>

definition file_symbols :: "string \<times> string \<Rightarrow> error + string set \<times> string set" where
  "file_symbols lf =
     (case read_char_file lf ([], {}, {}) of
        Inl e \<Rightarrow> Inl e
      | Inr (trans_dict, char_set, char_capital_set) \<Rightarrow> Inr (char_set, char_capital_set))"

text \<open>The rows of the mapping file that the first loop of \<open>read_phone\<close> reads
  without an IndexError.\<close>

definition row_ok :: "string list \<Rightarrow> bool" where
  "row_ok row = (2 \<le> length row \<and> (row ! 1 = ''nan'' \<or> 3 \<le> length row))"

text \<open>What the first loop of \<open>read_char\<close> keeps true of its state: the
  character set is finite and free of whitespace, and holds every character of
  every stored transcript.\<close>

definition char_scan_ok :: "char_scan \<Rightarrow> bool" where
  "char_scan_ok st = (case st of (trans_dict, char_set, char_capital_set) \<Rightarrow>
     finite char_set \<and>
     (\<forall>x\<in>char_set. \<forall>c\<in>set x. \<not> isspace c) \<and>
     (\<forall>ut\<in>set trans_dict. \<forall>c\<in>set (snd ut). [c] \<in> char_set))"

section \<open>The index dict of Char2idx and Phone2idx\<close>

lemma read_vocab_count:
  "snd (read_vocab ls rl m n) = n + length (filter (\<lambda>char. char \<notin> set rl) (map strip ls))"
  by (induction ls arbitrary: m n) (auto simp: Let_def)

lemma read_vocab_other:
  "k \<notin> set (filter (\<lambda>char. char \<notin> set rl) (map strip ls)) \<Longrightarrow>
   map_of (fst (read_vocab ls rl m n)) k = map_of m k"
  by (induction ls arbitrary: m n) (auto simp: Let_def update_conv')

lemma read_vocab_nth:
  "distinct (filter (\<lambda>char. char \<notin> set rl) (map strip ls)) \<Longrightarrow>
   i < length (filter (\<lambda>char. char \<notin> set rl) (map strip ls)) \<Longrightarrow>
   map_of (fst (read_vocab ls rl m n)) (filter (\<lambda>char. char \<notin> set rl) (map strip ls) ! i) = Some (n + i)"
proof (induction ls arbitrary: m n i)
  case Nil
  then show ?case by simp
next
  case (Cons l ls)
  show ?case
  proof (cases "strip l \<in> set rl")
    case True
    with Cons show ?thesis by (simp add: Let_def)
  next
    case False
    note keep = this
    show ?thesis
    proof (cases i)
      case 0
      with keep Cons.prems show ?thesis
        by (simp add: Let_def read_vocab_other update_conv')
    next
      case (Suc j)
      with keep Cons.prems Cons.IH [of j "AList.update (strip l) n m" "n + 1"] show ?thesis
        by (simp add: Let_def)
    qed
  qed
qed

lemma add_sos_eos_sos: "map_of (add_sos_eos mc) ''<'' = Some (snd mc)"
  by (cases mc) (simp add: add_sos_eos_def update_conv')

lemma add_sos_eos_eos: "map_of (add_sos_eos mc) ''>'' = Some (snd mc + 1)"
  by (cases mc) (simp add: add_sos_eos_def update_conv')

lemma add_sos_eos_other:
  "k \<noteq> ''<'' \<Longrightarrow> k \<noteq> ''>'' \<Longrightarrow> map_of (add_sos_eos mc) k = map_of (fst mc) k"
  by (cases mc) (simp add: add_sos_eos_def update_conv')

lemma vocab_dict_sos:
  "map_of (add_sos_eos (read_vocab (lines_of vf) rl [] 0)) ''<'' = Some (length (retained vf rl))"
  by (simp add: add_sos_eos_sos read_vocab_count retained_def)

lemma vocab_dict_eos:
  "map_of (add_sos_eos (read_vocab (lines_of vf) rl [] 0)) ''>'' = Some (length (retained vf rl) + 1)"
  by (simp add: add_sos_eos_eos read_vocab_count retained_def)

lemma vocab_dict_nth:
  assumes "distinct (retained vf rl)" and "''<'' \<notin> set (retained vf rl)"
    and "''>'' \<notin> set (retained vf rl)" and "i < length (retained vf rl)"
  shows "map_of (add_sos_eos (read_vocab (lines_of vf) rl [] 0)) (retained vf rl ! i) = Some i"
proof -
  let ?r = "read_vocab (lines_of vf) rl [] 0"
  have mem: "retained vf rl ! i \<in> set (retained vf rl)"
    using assms(4) by simp
  with assms(2,3) have ne: "retained vf rl ! i \<noteq> ''<''" "retained vf rl ! i \<noteq> ''>''"
    by auto
  have "map_of (add_sos_eos ?r) (retained vf rl ! i) = map_of (fst ?r) (retained vf rl ! i)"
    using ne by (rule add_sos_eos_other)
  also have "\<dots> = Some (0 + i)"
    using assms(1,4) unfolding retained_def by (rule read_vocab_nth)
  finally show ?thesis by simp
qed

text \<open>
  C4, as the code has it. With \<open>N\<close> the number of symbols kept from the vocabulary
  file (after the exclusion list), both \<open>Char2idx\<close> and \<open>Phone2idx\<close> map \<open><\<close> to
  \<open>N\<close> and \<open>>\<close> to \<open>N + 1\<close>, for every file. When the kept symbols are pairwise
  distinct and none of them is \<open><\<close> or \<open>>\<close>, the \<open>i\<close>-th kept symbol has index
  \<open>i\<close>, so the kept symbols occupy \<open>0 .. N - 1\<close> in file order.
\<close>

theorem reserved_slots:
  "map_of (map_dict (Char2idx_init vf sm cd dl rl)) ''<'' = Some (length (retained vf rl)) \<and>
   map_of (map_dict (Char2idx_init vf sm cd dl rl)) ''>'' = Some (length (retained vf rl) + 1) \<and>
   map_of (phone_map_dict (Phone2idx_init vf rl)) ''<'' = Some (length (retained vf rl)) \<and>
   map_of (phone_map_dict (Phone2idx_init vf rl)) ''>'' = Some (length (retained vf rl) + 1) \<and>
   (distinct (retained vf rl) \<and> ''<'' \<notin> set (retained vf rl) \<and> ''>'' \<notin> set (retained vf rl) \<and>
    i < length (retained vf rl) \<longrightarrow>
      map_of (map_dict (Char2idx_init vf sm cd dl rl)) (retained vf rl ! i) = Some i \<and>
      map_of (phone_map_dict (Phone2idx_init vf rl)) (retained vf rl ! i) = Some i)"
  by (simp add: Char2idx_init_def Phone2idx_init_def vocab_dict_sos vocab_dict_eos vocab_dict_nth)

lemma retained_example: "retained (write_lines [''a'', ''x'', ''b'']) [''x''] = [''a'', ''b'']"
  by code_simp

text \<open>The file with the lines \<open>a\<close>, \<open>x\<close>, \<open>b\<close> and the exclusion list \<open>[x]\<close>:
  two symbols are kept, \<open>b\<close> is the second.\<close>

theorem reserved_slots_witness:
  "map_of (map_dict (Char2idx_init (write_lines [''a'', ''x'', ''b'']) ''_'' False False [''x''])) ''<'' = Some 2 \<and>
   map_of (map_dict (Char2idx_init (write_lines [''a'', ''x'', ''b'']) ''_'' False False [''x''])) ''>'' = Some 3 \<and>
   map_of (map_dict (Char2idx_init (write_lines [''a'', ''x'', ''b'']) ''_'' False False [''x''])) ''b'' = Some 1 \<and>
   map_of (phone_map_dict (Phone2idx_init (write_lines [''a'', ''x'', ''b'']) [''x''])) ''b'' = Some 1"
  using reserved_slots [of "write_lines [''a'', ''x'', ''b'']" "''_''" False False "[''x'']" 1]
  by (simp add: retained_example)

text \<open>C4 as stated fails on a vocabulary file that lists \<open><\<close> itself (the first
  of two kept symbols, yet at index 2, so that index 0 is not used) and on a file
  that repeats a line (the first kept symbol \<open>a\<close> is at index 1).\<close>

theorem reserved_slots_counterexample:
  "length (retained (write_lines [''<'', ''a'']) []) = 2 \<and>
   map_of (map_dict (Char2idx_init (write_lines [''<'', ''a'']) ''_'' False False []))
     (retained (write_lines [''<'', ''a'']) [] ! 0) \<noteq> Some 0 \<and>
   length (retained (write_lines [''a'', ''a'']) []) = 2 \<and>
   map_of (phone_map_dict (Phone2idx_init (write_lines [''a'', ''a'']) []))
     (retained (write_lines [''a'', ''a'']) [] ! 0) \<noteq> Some 0"
  by code_simp

section \<open>Capital-divided tokenization of single words\<close>

lemma upper_a: "upper ''a'' = ''A''"
  by code_simp

lemma split_all: "split_sep ''_'' ''all'' = [''all'']"
  by code_simp

lemma capital_word_all:
  assumes "map_of m ''A'' = Some a" and "map_of m ''ll'' = Some b"
  shows "capital_word m ''all'' index_list = Inr (index_list @ [a, b])"
  using assms by (simp add: capital_word_def upper_a body_scan.simps final_char_def)

text \<open>
  C6. In capital-divided mode (with the space mark \<open>_\<close>), when the dict has the
  units \<open>A\<close> and \<open>ll\<close>, the word \<open>all\<close> gives exactly the two indices of \<open>A\<close> and
  \<open>ll\<close>: the pair is one unit and the final \<open>l\<close> is not emitted again. The same
  holds for the word inside a longer transcript, whatever was emitted before it.
\<close>

theorem all_two_units:
  assumes "capital_divide self" and "space_mark self = ''_''"
    and "map_of (map_dict self) ''A'' = Some a" and "map_of (map_dict self) ''ll'' = Some b"
  shows "Char2idx_call self ''all'' = Inr [a, b] \<and>
         capital_word (map_dict self) ''all'' index_list = Inr (index_list @ [a, b])"
  using assms capital_word_all [of "map_dict self" a b]
  by (simp add: Char2idx_call_def split_all)

text \<open>The vocabulary file with the lines \<open>A\<close>, \<open>l\<close>, \<open>ll\<close> and the apostrophe.\<close>

theorem all_two_units_witness:
  "Char2idx_call (Char2idx_init (write_lines [''A'', ''l'', ''ll'', [CHR 0x27]]) ''_'' True False []) ''all''
     = Inr [0, 2]"
proof -
  let ?s = "Char2idx_init (write_lines [''A'', ''l'', ''ll'', [CHR 0x27]]) ''_'' True False []"
  have 1: "capital_divide ?s" by code_simp
  have 2: "space_mark ?s = ''_''" by code_simp
  have 3: "map_of (map_dict ?s) ''A'' = Some 0" by code_simp
  have 4: "map_of (map_dict ?s) ''ll'' = Some 2" by code_simp
  from all_two_units [OF 1 2 3 4] show ?thesis by simp
qed

text \<open>A word of one character: after the upper-case first letter, the check
  \<open>if not skip_flag\<close> after the (empty) loop appends the index of the last
  character, which is the same character in lower case.\<close>

lemma capital_word_single:
  "capital_word m [c] index_list =
     (case map_of m (upper [c]) of
        None \<Rightarrow> Inl KeyError
      | Some k \<Rightarrow> (case map_of m [c] of
                    None \<Rightarrow> Inl KeyError
                  | Some k' \<Rightarrow> Inr (index_list @ [k, k'])))"
  by (simp add: capital_word_def body_scan.simps final_char_def split: option.splits)

text \<open>
  C2 does not hold of the code. With a vocabulary that has \<open>A\<close> and \<open>a\<close>, the
  word \<open>a\<close> gives two indices, those of \<open>A\<close> and of \<open>a\<close>; with a vocabulary
  that has \<open>A\<close> only, the call raises KeyError. The vocabulary scan of
  \<open>read_char\<close> treats a word of length 1 apart and adds one unit for it.
\<close>

theorem single_letter_word_two_units:
  "Char2idx_call (Char2idx_init (write_lines [''A'', ''a'', [CHR 0x27]]) ''_'' True False []) ''a''
     = Inr [0, 1] \<and>
   Char2idx_call (Char2idx_init (write_lines [''A'', [CHR 0x27]]) ''_'' True False []) ''a''
     = Inl KeyError \<and>
   capital_set_word ''a'' {} = Inr {''A''}"
  by code_simp

section \<open>The scan of read\_char raises nothing but IndexError\<close>

lemma utt_name_of_error: "utt_name_of p = Inl e \<Longrightarrow> e = IndexError"
  by (auto simp: utt_name_of_def Let_def split: if_splits)

lemma trim_first_error: "trim_first t = Inl e \<Longrightarrow> e = IndexError"
  by (auto simp: trim_first_def split: list.splits)

lemma trim_last_error: "trim_last t = Inl e \<Longrightarrow> e = IndexError"
  by (auto simp: trim_last_def split: if_splits)

lemma clean_transcript_error: "clean_transcript l = Inl e \<Longrightarrow> e = IndexError"
  by (auto simp: clean_transcript_def Let_def split: sum.splits dest: trim_first_error trim_last_error)

lemma capital_set_word_error: "capital_set_word w S = Inl e \<Longrightarrow> e = IndexError"
  by (auto simp: capital_set_word_def Let_def split: if_splits list.splits)

lemma capital_set_words_error: "capital_set_words ws S = Inl e \<Longrightarrow> e = IndexError"
  by (induction ws arbitrary: S) (auto split: sum.splits dest: capital_set_word_error)

lemma read_char_file_error: "read_char_file lf st = Inl e \<Longrightarrow> e = IndexError"
  by (auto simp: read_char_file_def Let_def split: prod.splits list.splits sum.splits
      dest: utt_name_of_error clean_transcript_error capital_set_words_error)

lemma read_char_scan_error: "read_char_scan lfs st = Inl e \<Longrightarrow> e = IndexError"
  by (induction lfs arbitrary: st) (auto split: sum.splits dest: read_char_file_error)

lemma read_char_scan_fails:
  assumes "lf \<in> set lfs" and "\<And>st. read_char_file lf st = Inl IndexError"
  shows "read_char_scan lfs st = Inl IndexError"
  using assms(1)
proof (induction lfs arbitrary: st)
  case Nil
  then show ?case by simp
next
  case (Cons a lfs)
  show ?case
  proof (cases "read_char_file a st")
    case (Inl e)
    then show ?thesis using read_char_file_error [OF Inl] by simp
  next
    case (Inr st')
    have "a \<noteq> lf" using Inr assms(2) [of st] by auto
    with Cons.prems have "lf \<in> set lfs" by auto
    from Cons.IH [OF this] Inr show ?thesis by simp
  qed
qed

lemma clean_transcript_empty:
  assumes "join '' '' (drop 2 (split_sep '' '' (remove_punct (lower (strip l))))) = []"
  shows "clean_transcript l = Inl IndexError"
  using assms by (simp add: clean_transcript_def Let_def remove_double_spaces.simps trim_first_def)

lemma read_char_file_empty:
  assumes "join '' '' (drop 2 (split_sep '' '' (remove_punct (lower (strip (last (lines_of content))))))) = []"
  shows "read_char_file (label_path, content) st = Inl IndexError"
  using clean_transcript_empty [OF assms]
  by (auto simp: read_char_file_def split: prod.splits list.splits sum.splits dest: utt_name_of_error)

text \<open>
  C9. When the last line of a label file is empty after lower-casing, removing the
  punctuation and dropping the first two fields, the trim step reads
  \<open>transcript[0]\<close> of the empty string: cleaning that line raises IndexError, and
  so does \<open>read_char\<close> for every corpus with such a file, whatever the flags;
  the vocabulary files are left as they were and no result is returned.
\<close>

theorem empty_transcript_raises:
  assumes "(label_path, content) \<in> set label_files"
    and "content \<noteq> []"
    and "join '' '' (drop 2 (split_sep '' '' (remove_punct (lower (strip (last (lines_of content))))))) = []"
  shows "clean_transcript (last (lines_of content)) = Inl IndexError \<and>
         read_char label_files files save_vocab_file is_test = (files, Inl IndexError)"
  using clean_transcript_empty [OF assms(3)]
    read_char_scan_fails [OF assms(1) read_char_file_empty [OF assms(3)], of "([], {}, {})"]
  by (simp add: read_char_def)

text \<open>A label file whose transcript is nothing but three full stops.\<close>

theorem empty_transcript_raises_witness:
  "read_char [(''d/s1/u1.txt'', ''0 46797 ...'' @ [CHR 0x0A])] (None, None) True False
     = ((None, None), Inl IndexError)"
proof -
  let ?c = "''0 46797 ...'' @ [CHR 0x0A]"
  have 1: "(''d/s1/u1.txt'', ?c) \<in> set [(''d/s1/u1.txt'', ?c)]" by simp
  have 2: "?c \<noteq> []" by simp
  have 3: "join '' '' (drop 2 (split_sep '' '' (remove_punct (lower (strip (last (lines_of ?c))))))) = []"
    by code_simp
  from empty_transcript_raises [OF 1 2 3] show ?thesis by simp
qed

section \<open>Splitting at whitespace\<close>

lemma split_ws_from_clean:
  "\<forall>c\<in>set cur. \<not> isspace c \<Longrightarrow>
   \<forall>x\<in>set (split_ws_from cur s). x \<noteq> [] \<and> (\<forall>c\<in>set x. \<not> isspace c)"
proof (induction s arbitrary: cur)
  case Nil
  then show ?case by simp
next
  case (Cons c cs)
  have empty: "\<forall>x\<in>set (split_ws_from [] cs). x \<noteq> [] \<and> (\<forall>c\<in>set x. \<not> isspace c)"
    by (rule Cons.IH) simp
  show ?case
  proof (cases "isspace c")
    case True
    with empty Cons.prems show ?thesis by simp
  next
    case False
    with Cons.prems have "\<forall>a\<in>set (cur @ [c]). \<not> isspace a" by simp
    then have "\<forall>x\<in>set (split_ws_from (cur @ [c]) cs). x \<noteq> [] \<and> (\<forall>c\<in>set x. \<not> isspace c)"
      by (rule Cons.IH)
    with False show ?thesis by simp
  qed
qed

lemma split_ws_clean:
  "x \<in> set (split_ws s) \<Longrightarrow> x \<noteq> [] \<and> (\<forall>c\<in>set x. \<not> isspace c)"
  using split_ws_from_clean [of "[]" s] by (simp add: split_ws_def)

lemma table_rows_clean:
  assumes "row \<in> set (table_rows mf)" and "i < length row"
  shows "row ! i \<noteq> [] \<and> (\<forall>c\<in>set (row ! i). \<not> isspace c)"
proof -
  from assms(1) obtain l where "row = split_ws (strip l)"
    by (auto simp: table_rows_def)
  with assms(2) show ?thesis
    using split_ws_clean [of "row ! i" "strip l"] by simp
qed

section \<open>map\_phone2phone\<close>

lemma remove_empty_filter: "remove_empty xs = filter (\<lambda>x. x \<noteq> []) xs"
proof (induction xs rule: remove_empty.induct)
  case (1 xs)
  have rm: "filter (\<lambda>x. x \<noteq> []) (remove1 [] ys) = filter (\<lambda>x. x \<noteq> []) ys" for ys :: "string list"
    by (induction ys) auto
  show ?case
  proof (cases "[] \<in> set xs")
    case True
    with 1 rm [of xs] show ?thesis by (simp add: remove_empty.simps [of xs])
  next
    case False
    then have "filter (\<lambda>x. x \<noteq> []) xs = xs" by (induction xs) auto
    with False show ?thesis by (simp add: remove_empty.simps [of xs])
  qed
qed

lemma read_phone_map_rows:
  assumes "label_type = ''phone48'' \<or> label_type = ''phone39''"
    and "\<forall>l\<in>set ls. 3 \<le> length (split_ws (strip l))"
  shows "\<exists>m'. read_phone_map ls label_type m = Inr m' \<and>
           map_of m' = map_of m ++ map_of (rev (map (\<lambda>l. row_entry label_type (split_ws (strip l))) ls))"
  using assms(2)
proof (induction ls arbitrary: m)
  case Nil
  then show ?case by simp
next
  case (Cons l ls)
  let ?row = "split_ws (strip l)"
  let ?e = "row_entry label_type ?row"
  from Cons.prems have len: "3 \<le> length ?row" and rest: "\<forall>l\<in>set ls. 3 \<le> length (split_ws (strip l))"
    by auto
  from Cons.IH [OF rest, of "AList.update (fst ?e) (snd ?e) m"]
  obtain m' where m': "read_phone_map ls label_type (AList.update (fst ?e) (snd ?e) m) = Inr m'"
    and eq: "map_of m' = map_of (AList.update (fst ?e) (snd ?e) m) ++
               map_of (rev (map (\<lambda>l. row_entry label_type (split_ws (strip l))) ls))"
    by blast
  have step: "read_phone_map (l # ls) label_type m = read_phone_map ls label_type (AList.update (fst ?e) (snd ?e) m)"
    using assms(1) len by (auto simp: Let_def row_entry_def)
  have "map_of (AList.update (fst ?e) (snd ?e) m) = map_of m ++ map_of [?e]"
    by (simp add: update_conv')
  with eq have "map_of m' = map_of m ++ map_of (rev (map (\<lambda>l. row_entry label_type (split_ws (strip l))) (l # ls)))"
    by (simp add: map_of_append map_add_assoc)
  with step m' show ?case by simp
qed

lemma map_of_rows_find:
  "\<forall>row\<in>set rows. row \<noteq> [] \<Longrightarrow>
   map_of (map (row_entry label_type) rows) p =
     map_option (\<lambda>row. snd (row_entry label_type row)) (find (\<lambda>row. take 1 row = [p]) rows)"
proof (induction rows)
  case Nil
  then show ?case by simp
next
  case (Cons row rows)
  then obtain a as where "row = a # as" by (cases row) auto
  with Cons show ?case by (auto simp: row_entry_def)
qed

lemma find_Some_set: "find P xs = Some x \<Longrightarrow> x \<in> set xs \<and> P x"
  by (induction xs) (auto split: if_splits)

lemma map_phone2phone_collapse:
  assumes lt: "label_type = ''phone48'' \<or> label_type = ''phone39''"
    and wf: "\<forall>row\<in>set (table_rows map_file). 3 \<le> length row"
  shows "map_phone2phone phone_list label_type map_file
           = Inr (concat (map (collapse label_type (table_rows map_file)) phone_list))"
proof -
  let ?rows = "table_rows map_file"
  from wf have wf': "\<forall>l\<in>set (lines_of map_file). 3 \<le> length (split_ws (strip l))"
    by (simp add: table_rows_def)
  from read_phone_map_rows [OF lt wf', of "[]"]
  obtain m where m: "read_phone_map (lines_of map_file) label_type [] = Inr m"
    and eq: "map_of m = map_of (rev (map (row_entry label_type) ?rows))"
    by (auto simp: table_rows_def comp_def)
  have ne: "\<forall>row\<in>set (rev ?rows). row \<noteq> []" using wf by auto
  have look: "map_of m p = map_option (\<lambda>row. snd (row_entry label_type row)) (last_row ?rows p)" for p
    unfolding eq last_row_def rev_map by (rule map_of_rows_find [OF ne])
  have one: "(if (case map_of m p of Some v \<Rightarrow> v | None \<Rightarrow> p) \<noteq> []
              then [case map_of m p of Some v \<Rightarrow> v | None \<Rightarrow> p] else [])
             = collapse label_type ?rows p" for p
  proof (cases "last_row ?rows p")
    case None
    then show ?thesis by (simp add: look collapse_def)
  next
    case (Some row)
    then have "row \<in> set ?rows"
      using find_Some_set [of "\<lambda>row. take 1 row = [p]" "rev ?rows" row] by (simp add: last_row_def)
    with wf table_rows_clean [of row map_file 1] table_rows_clean [of row map_file 2]
    have "row ! 1 \<noteq> []" "row ! 2 \<noteq> []" by auto
    with Some show ?thesis by (simp add: look collapse_def row_entry_def)
  qed
  have "filter (\<lambda>x. x \<noteq> []) (map_phones m phone_list)
          = concat (map (\<lambda>p. if (case map_of m p of Some v \<Rightarrow> v | None \<Rightarrow> p) \<noteq> []
                                then [case map_of m p of Some v \<Rightarrow> v | None \<Rightarrow> p] else []) phone_list)"
    unfolding map_phones_def by (induction phone_list) simp_all
  then have flt: "filter (\<lambda>x. x \<noteq> []) (map_phones m phone_list)
          = concat (map (collapse label_type ?rows) phone_list)"
    by (simp only: one)
  from lt have "label_type \<noteq> ''phone61''" by auto
  then show ?thesis
    by (simp add: map_phone2phone_def m remove_empty_filter flt)
qed

text \<open>
  C3, as the code has it. For the targets \<open>phone48\<close> and \<open>phone39\<close> and a
  mapping file whose rows have three fields, \<open>map_phone2phone\<close> returns the
  sequence in which every symbol is replaced by its \<open>collapse\<close>: a non-empty
  symbol with no row in the table is passed through unchanged, and a symbol with a
  row is deleted exactly when that row has \<open>nan\<close> in the 48-phone column,
  whichever the target is.
\<close>

theorem collapse_by_48_column:
  assumes "label_type = ''phone48'' \<or> label_type = ''phone39''"
    and "\<forall>row\<in>set (table_rows map_file). 3 \<le> length row"
  shows "map_phone2phone phone_list label_type map_file
           = Inr (concat (map (collapse label_type (table_rows map_file)) phone_list)) \<and>
         (last_row (table_rows map_file) p = None \<and> p \<noteq> [] \<longrightarrow>
            collapse label_type (table_rows map_file) p = [p]) \<and>
         (last_row (table_rows map_file) p = Some row \<longrightarrow>
            (collapse label_type (table_rows map_file) p = []) = (row ! 1 = ''nan''))"
  using map_phone2phone_collapse [OF assms] by (simp add: collapse_def)

text \<open>A table whose first row has \<open>nan\<close> in the 39-phone column only and whose
  last row has it in the 48-phone column only, and the target \<open>phone39\<close>.\<close>

lemma table_example:
  "table_rows (''a b nan'' @ [CHR 0x0A] @ ''q nan nan'' @ [CHR 0x0A] @ ''z nan c'' @ [CHR 0x0A])
     = [[''a'', ''b'', ''nan''], [''q'', ''nan'', ''nan''], [''z'', ''nan'', ''c'']]"
  by code_simp

theorem collapse_by_48_column_witness:
  "map_phone2phone [''a'', ''q'', ''z'', ''x''] ''phone39''
     (''a b nan'' @ [CHR 0x0A] @ ''q nan nan'' @ [CHR 0x0A] @ ''z nan c'' @ [CHR 0x0A])
   = Inr [''nan'', ''x'']"
proof -
  let ?mf = "''a b nan'' @ [CHR 0x0A] @ ''q nan nan'' @ [CHR 0x0A] @ ''z nan c'' @ [CHR 0x0A]"
  have 1: "''phone39'' = ''phone48'' \<or> ''phone39'' = ''phone39''" by simp
  have 2: "\<forall>row\<in>set (table_rows ?mf). 3 \<le> length row"
    unfolding table_example by simp
  have 3: "concat (map (collapse ''phone39'' (table_rows ?mf)) [''a'', ''q'', ''z'', ''x'']) = [''nan'', ''x'']"
    unfolding table_example by code_simp
  from collapse_by_48_column [OF 1 2, of "[''a'', ''q'', ''z'', ''x'']"] show ?thesis
    unfolding 3 by simp
qed

text \<open>C3 as stated fails for the target \<open>phone39\<close>: a row with \<open>nan\<close> in the
  39-phone column only maps its symbol to the string \<open>nan\<close>, and a row with
  \<open>nan\<close> in the 48-phone column only deletes its symbol. It also fails for the
  empty symbol, which a label line with two spaces before the phone yields: it has
  no row in the table and is deleted.\<close>

theorem collapse_by_48_column_counterexample:
  "map_phone2phone [''a''] ''phone39'' (''a b nan'' @ [CHR 0x0A]) = Inr [''nan''] \<and>
   map_phone2phone [''z''] ''phone39'' (''z nan c'' @ [CHR 0x0A]) = Inr [] \<and>
   phone61_list_of [''0 1  a'' @ [CHR 0x0A], ''1 2 a'' @ [CHR 0x0A]] = Inr [[], ''a''] \<and>
   map_phone2phone [[], ''a''] ''phone48'' (''a a a'' @ [CHR 0x0A]) = Inr [''a'']"
  by code_simp

section \<open>The symbol sets of read\_phone\<close>

lemma read_phone_sets_rows:
  assumes "\<forall>l\<in>set ls. 3 \<le> length (split_ws (strip l))"
  shows "read_phone_sets ls (s61, s48, s39) =
           Inr (s61 \<union> (\<lambda>row. row ! 0) ` set (map (\<lambda>l. split_ws (strip l)) ls),
                s48 \<union> (\<lambda>row. row ! 1) ` {row \<in> set (map (\<lambda>l. split_ws (strip l)) ls). row ! 1 \<noteq> ''nan''},
                s39 \<union> (\<lambda>row. row ! 2) ` {row \<in> set (map (\<lambda>l. split_ws (strip l)) ls). row ! 1 \<noteq> ''nan''})"
  using assms
proof (induction ls arbitrary: s61 s48 s39)
  case Nil
  then show ?case by simp
next
  case (Cons l ls)
  let ?row = "split_ws (strip l)"
  from Cons.prems have len: "3 \<le> length ?row" and rest: "\<forall>l\<in>set ls. 3 \<le> length (split_ws (strip l))"
    by auto
  show ?case
  proof (cases "?row ! 1 = ''nan''")
    case True
    with len have "read_phone_sets (l # ls) (s61, s48, s39) = read_phone_sets ls (insert (?row ! 0) s61, s48, s39)"
      by (simp add: Let_def)
    also note Cons.IH [OF rest]
    finally show ?thesis using True by auto
  next
    case False
    with len have "read_phone_sets (l # ls) (s61, s48, s39)
        = read_phone_sets ls (insert (?row ! 0) s61, insert (?row ! 1) s48, insert (?row ! 2) s39)"
      by (simp add: Let_def)
    also note Cons.IH [OF rest]
    finally show ?thesis using False by auto
  qed
qed

lemma concat_length_count:
  assumes "\<forall>p\<in>set ps. length (f p) = (if p = q then 0 else 1)"
  shows "length (concat (map f ps)) + count_list ps q = length ps"
  using assms by (induction ps) auto

lemma take1_nth: "take 1 r = [p] \<Longrightarrow> r ! 0 = p"
  by (cases r) simp_all

lemma nth_take1: "r ! 0 = p \<Longrightarrow> r \<noteq> [] \<Longrightarrow> take 1 r = [p]"
  by (cases r) simp_all

lemma collapse_length_q:
  assumes wf: "\<forall>row\<in>set rows. 3 \<le> length row"
    and q_row: "\<exists>row\<in>set rows. row ! 0 = ''q''"
    and only_q: "\<forall>row\<in>set rows. (row ! 1 = ''nan'') = (row ! 0 = ''q'')"
    and ne: "p \<noteq> []"
  shows "length (collapse label_type rows p) = (if p = ''q'' then 0 else 1)"
proof (cases "last_row rows p")
  case None
  have "p \<noteq> ''q''"
  proof
    assume "p = ''q''"
    from q_row obtain row where row: "row \<in> set rows" "row ! 0 = ''q''" by blast
    from row(1) wf have "row \<noteq> []" by auto
    with row(2) have "take 1 row = [''q'']" by (rule nth_take1)
    moreover from None have "\<not> (\<exists>x. x \<in> set (rev rows) \<and> take 1 x = [p])"
      unfolding last_row_def find_None_iff .
    ultimately show False using row(1) \<open>p = ''q''\<close> by simp
  qed
  with None ne show ?thesis by (simp add: collapse_def)
next
  case (Some row)
  then have mem: "row \<in> set rows" and hd: "take 1 row = [p]"
    using find_Some_set [of "\<lambda>row. take 1 row = [p]" "rev rows" row] by (simp_all add: last_row_def)
  from hd have "row ! 0 = p" by (rule take1_nth)
  with mem only_q have "(row ! 1 = ''nan'') = (p = ''q'')" by blast
  with Some show ?thesis by (simp add: collapse_def)
qed

text \<open>
  C5. The mapping file is a parameter; it is taken to have three fields in every
  row, a row for \<open>q\<close>, \<open>nan\<close> in the 48-phone column of the rows of \<open>q\<close> and of
  no other row, and \<open>q\<close> in no 48- or 39-phone column. Then for a sequence of
  non-empty symbols with exactly one \<open>q\<close>, the 48-phone and the 39-phone sequence
  are both one element shorter than the 61-phone sequence, and \<open>q\<close> is in neither
  the 48-phone nor the 39-phone symbol set of \<open>read_phone\<close>.
\<close>

theorem q_removed:
  assumes wf: "\<forall>row\<in>set (table_rows map_file). 3 \<le> length row"
    and q_row: "\<exists>row\<in>set (table_rows map_file). row ! 0 = ''q''"
    and only_q: "\<forall>row\<in>set (table_rows map_file). (row ! 1 = ''nan'') = (row ! 0 = ''q'')"
    and no_target: "\<forall>row\<in>set (table_rows map_file). row ! 1 \<noteq> ''q'' \<and> row ! 2 \<noteq> ''q''"
    and one_q: "count_list phone61_list ''q'' = 1"
    and symbols: "[] \<notin> set phone61_list"
  shows "\<exists>phone48_list phone39_list phone61_set phone48_set phone39_set.
           map_phone2phone phone61_list ''phone48'' map_file = Inr phone48_list \<and>
           map_phone2phone phone61_list ''phone39'' map_file = Inr phone39_list \<and>
           length phone48_list + 1 = length phone61_list \<and>
           length phone39_list + 1 = length phone61_list \<and>
           read_phone_sets (lines_of map_file) ({}, {}, {}) = Inr (phone61_set, phone48_set, phone39_set) \<and>
           ''q'' \<notin> phone48_set \<and> ''q'' \<notin> phone39_set"
proof -
  let ?rows = "table_rows map_file"
  have len: "length (concat (map (collapse label_type ?rows) phone61_list)) + 1 = length phone61_list"
    for label_type
  proof -
    have "\<forall>p\<in>set phone61_list. length (collapse label_type ?rows p) = (if p = ''q'' then 0 else 1)"
    proof
      fix p assume "p \<in> set phone61_list"
      with symbols have "p \<noteq> []" by blast
      then show "length (collapse label_type ?rows p) = (if p = ''q'' then 0 else 1)"
        by (rule collapse_length_q [OF wf q_row only_q])
    qed
    from concat_length_count [OF this] one_q show ?thesis by simp
  qed
  have m48: "map_phone2phone phone61_list ''phone48'' map_file
               = Inr (concat (map (collapse ''phone48'' ?rows) phone61_list))"
    by (rule map_phone2phone_collapse) (simp_all add: wf)
  have m39: "map_phone2phone phone61_list ''phone39'' map_file
               = Inr (concat (map (collapse ''phone39'' ?rows) phone61_list))"
    by (rule map_phone2phone_collapse) (simp_all add: wf)
  from wf have wf': "\<forall>l\<in>set (lines_of map_file). 3 \<le> length (split_ws (strip l))"
    by (simp add: table_rows_def)
  have sets: "read_phone_sets (lines_of map_file) ({}, {}, {}) =
           Inr ((\<lambda>row. row ! 0) ` set ?rows,
                (\<lambda>row. row ! 1) ` {row \<in> set ?rows. row ! 1 \<noteq> ''nan''},
                (\<lambda>row. row ! 2) ` {row \<in> set ?rows. row ! 1 \<noteq> ''nan''})"
    using read_phone_sets_rows [OF wf', of "{}" "{}" "{}"] by (simp add: table_rows_def)
  have n48: "''q'' \<notin> (\<lambda>row. row ! 1) ` {row \<in> set ?rows. row ! 1 \<noteq> ''nan''}"
  proof
    assume "''q'' \<in> (\<lambda>row. row ! 1) ` {row \<in> set ?rows. row ! 1 \<noteq> ''nan''}"
    then obtain row where "row \<in> set ?rows" and "''q'' = row ! 1" by blast
    with no_target show False by (metis (no_types))
  qed
  have n39: "''q'' \<notin> (\<lambda>row. row ! 2) ` {row \<in> set ?rows. row ! 1 \<noteq> ''nan''}"
  proof
    assume "''q'' \<in> (\<lambda>row. row ! 2) ` {row \<in> set ?rows. row ! 1 \<noteq> ''nan''}"
    then obtain row where "row \<in> set ?rows" and "''q'' = row ! 2" by blast
    with no_target show False by (metis (no_types))
  qed
  from m48 m39 len [of "''phone48''"] len [of "''phone39''"] sets n48 n39 show ?thesis
    by (intro exI conjI) assumption+
qed

text \<open>A table of three rows and the sequence \<open>sh q ao\<close>.\<close>

theorem q_removed_witness:
  "\<exists>phone48_list phone39_list phone61_set phone48_set phone39_set.
     map_phone2phone [''sh'', ''q'', ''ao''] ''phone48''
       (''ao ao aa'' @ [CHR 0x0A] @ ''q nan nan'' @ [CHR 0x0A] @ ''sh sh sh'' @ [CHR 0x0A]) = Inr phone48_list \<and>
     map_phone2phone [''sh'', ''q'', ''ao''] ''phone39''
       (''ao ao aa'' @ [CHR 0x0A] @ ''q nan nan'' @ [CHR 0x0A] @ ''sh sh sh'' @ [CHR 0x0A]) = Inr phone39_list \<and>
     length phone48_list + 1 = length [''sh'', ''q'', ''ao''] \<and>
     length phone39_list + 1 = length [''sh'', ''q'', ''ao''] \<and>
     read_phone_sets (lines_of (''ao ao aa'' @ [CHR 0x0A] @ ''q nan nan'' @ [CHR 0x0A] @ ''sh sh sh'' @ [CHR 0x0A]))
       ({}, {}, {}) = Inr (phone61_set, phone48_set, phone39_set) \<and>
     ''q'' \<notin> phone48_set \<and> ''q'' \<notin> phone39_set"
proof -
  let ?mf = "''ao ao aa'' @ [CHR 0x0A] @ ''q nan nan'' @ [CHR 0x0A] @ ''sh sh sh'' @ [CHR 0x0A]"
  have rows: "table_rows ?mf = [[''ao'', ''ao'', ''aa''], [''q'', ''nan'', ''nan''], [''sh'', ''sh'', ''sh'']]"
    by code_simp
  have 1: "\<forall>row\<in>set (table_rows ?mf). 3 \<le> length row" unfolding rows by simp
  have 2: "\<exists>row\<in>set (table_rows ?mf). row ! 0 = ''q''" unfolding rows by simp
  have 3: "\<forall>row\<in>set (table_rows ?mf). (row ! 1 = ''nan'') = (row ! 0 = ''q'')" unfolding rows by simp
  have 4: "\<forall>row\<in>set (table_rows ?mf). row ! 1 \<noteq> ''q'' \<and> row ! 2 \<noteq> ''q''" unfolding rows by simp
  have 5: "count_list [''sh'', ''q'', ''ao''] ''q'' = 1" by simp
  have 6: "[] \<notin> set [''sh'', ''q'', ''ao'']" by simp
  show ?thesis by (rule q_removed [OF 1 2 3 4 5 6])
qed

section \<open>Writing a vocabulary file and reading it back\<close>

lemma isspace_newline: "isspace (CHR 0x0A)"
  by (simp add: isspace_def)

lemma isspace_return: "isspace (CHR 0x0D)"
  by (simp add: isspace_def)

lemma universal_newlines_id: "CHR 0x0D \<notin> set s \<Longrightarrow> universal_newlines s = s"
  by (induction s rule: universal_newlines.induct) auto

lemma split_lines_line:
  "CHR 0x0A \<notin> set x \<Longrightarrow> split_lines (x @ CHR 0x0A # rest) = (x @ [CHR 0x0A]) # split_lines rest"
  by (induction x) auto

lemma dropWhile_none: "\<forall>c\<in>set ys. \<not> P c \<Longrightarrow> dropWhile P ys = ys"
  by (cases ys) auto

lemma split_lines_write_lines:
  "\<forall>x\<in>set xs. CHR 0x0A \<notin> set x \<Longrightarrow> split_lines (write_lines xs) = map (\<lambda>x. x @ [CHR 0x0A]) xs"
proof (induction xs)
  case Nil
  then show ?case by (simp add: write_lines_def)
next
  case (Cons x xs)
  then have "split_lines (x @ CHR 0x0A # write_lines xs) = (x @ [CHR 0x0A]) # split_lines (write_lines xs)"
    by (simp add: split_lines_line)
  with Cons show ?case by (simp add: write_lines_def)
qed

lemma lines_of_write_lines:
  assumes "\<forall>x\<in>set xs. CHR 0x0A \<notin> set x \<and> CHR 0x0D \<notin> set x"
  shows "lines_of (write_lines xs) = map (\<lambda>x. x @ [CHR 0x0A]) xs"
proof -
  from assms have "CHR 0x0D \<notin> set (write_lines xs)"
    by (auto simp: write_lines_def)
  then have "universal_newlines (write_lines xs) = write_lines xs"
    by (rule universal_newlines_id)
  moreover from assms have "split_lines (write_lines xs) = map (\<lambda>x. x @ [CHR 0x0A]) xs"
    by (intro split_lines_write_lines) simp
  ultimately show ?thesis by (simp add: lines_of_def)
qed

lemma strip_line:
  assumes "\<forall>c\<in>set x. \<not> isspace c"
  shows "strip (x @ [CHR 0x0A]) = x"
proof (cases x)
  case Nil
  then show ?thesis by (simp add: strip_def isspace_newline)
next
  case (Cons a as)
  with assms have a: "\<not> isspace a" by simp
  from Cons a have 1: "dropWhile isspace (x @ [CHR 0x0A]) = x @ [CHR 0x0A]" by simp
  from assms have 2: "dropWhile isspace (rev x) = rev x" by (intro dropWhile_none) simp
  show ?thesis unfolding strip_def 1 by (simp add: isspace_newline 2)
qed

lemma retained_write_lines:
  assumes "\<forall>x\<in>set xs. \<forall>c\<in>set x. \<not> isspace c"
  shows "retained (write_lines xs) [] = xs"
proof -
  from assms have "\<forall>x\<in>set xs. CHR 0x0A \<notin> set x \<and> CHR 0x0D \<notin> set x"
    using isspace_newline isspace_return by blast
  then have "lines_of (write_lines xs) = map (\<lambda>x. x @ [CHR 0x0A]) xs" by (rule lines_of_write_lines)
  moreover have "map strip (map (\<lambda>x. x @ [CHR 0x0A]) xs) = xs"
    using assms by (induction xs) (simp_all add: strip_line)
  ultimately show ?thesis by (simp add: retained_def)
qed

section \<open>Looking up the empty string\<close>

lemma split_sep_empty: "split_sep sep [] = [[]]"
  by (simp add: split_sep_def)

lemma vocab_dict_no_empty:
  assumes "[] \<notin> set (retained vf rl)"
  shows "map_of (add_sos_eos (read_vocab (lines_of vf) rl [] 0)) [] = None"
proof -
  have "map_of (add_sos_eos (read_vocab (lines_of vf) rl [] 0)) []
          = map_of (fst (read_vocab (lines_of vf) rl [] 0)) []"
    by (rule add_sos_eos_other) simp_all
  also have "\<dots> = map_of [] []"
    using read_vocab_other [of "[]" rl "lines_of vf" "[]" 0] assms by (simp add: retained_def)
  finally show ?thesis by simp
qed

lemma Phone2idx_call_empty:
  assumes "[] \<notin> set (retained vf rl)"
  shows "Phone2idx_call (Phone2idx_init vf rl) [] = Inl KeyError"
  using vocab_dict_no_empty [OF assms]
  by (simp add: Phone2idx_call_def Phone2idx_init_def split_sep_empty)

lemma lookup_all_error: "lookup_all m xs = Inl e \<Longrightarrow> e = KeyError"
  by (induction xs arbitrary: e) (auto split: option.splits sum.splits)

lemma Phone2idx_call_error: "Phone2idx_call p s = Inl e \<Longrightarrow> e = KeyError"
  unfolding Phone2idx_call_def Let_def by (rule lookup_all_error)

section \<open>Tokenizing in read\_phone\<close>

lemma clean_symbols_empty: "clean_symbols {}"
  by (simp add: clean_symbols_def)

lemma clean_symbols_insert:
  "clean_symbols S \<Longrightarrow> i < length (split_ws s) \<Longrightarrow> clean_symbols (insert (split_ws s ! i) S)"
  using split_ws_clean [of "split_ws s ! i" s] by (simp add: clean_symbols_def)

lemma read_phone_sets_clean:
  assumes "read_phone_sets ls (a, b, c) = Inr (a', b', c')"
    and "clean_symbols a" and "clean_symbols b" and "clean_symbols c"
  shows "clean_symbols a' \<and> clean_symbols b' \<and> clean_symbols c'"
  using assms
proof (induction ls arbitrary: a b c)
  case Nil
  then show ?case by simp
next
  case (Cons l ls)
  let ?row = "split_ws (strip l)"
  from Cons.prems(1) have len2: "2 \<le> length ?row"
    by (simp add: Let_def split: if_splits)
  show ?case
  proof (cases "?row ! 1 = ''nan''")
    case True
    with len2 Cons.prems(1) have "read_phone_sets ls (insert (?row ! 0) a, b, c) = Inr (a', b', c')"
      by (simp add: Let_def)
    moreover from len2 Cons.prems(2) have "clean_symbols (insert (?row ! 0) a)"
      by (intro clean_symbols_insert) auto
    ultimately show ?thesis using Cons.prems(3,4) by (rule Cons.IH)
  next
    case False
    with Cons.prems(1) have len3: "3 \<le> length ?row"
      by (simp add: Let_def split: if_splits)
    with False Cons.prems(1)
    have "read_phone_sets ls (insert (?row ! 0) a, insert (?row ! 1) b, insert (?row ! 2) c) = Inr (a', b', c')"
      by (simp add: Let_def)
    moreover from len3 Cons.prems(2) have "clean_symbols (insert (?row ! 0) a)"
      by (intro clean_symbols_insert) auto
    moreover from len3 Cons.prems(3) have "clean_symbols (insert (?row ! 1) b)"
      by (intro clean_symbols_insert) simp_all
    moreover from len3 Cons.prems(4) have "clean_symbols (insert (?row ! 2) c)"
      by (intro clean_symbols_insert) simp_all
    ultimately show ?thesis by (rule Cons.IH)
  qed
qed

lemma retained_sorted_clean:
  assumes "clean_symbols S"
  shows "retained (write_lines (sorted_list_of_set S)) [] = sorted_list_of_set S"
    and "[] \<notin> set (sorted_list_of_set S)"
proof -
  from assms have set: "set (sorted_list_of_set S) = S" by (simp add: clean_symbols_def)
  with assms show "retained (write_lines (sorted_list_of_set S)) [] = sorted_list_of_set S"
    by (intro retained_write_lines) (simp add: clean_symbols_def)
  from assms set show "[] \<notin> set (sorted_list_of_set S)"
    by (auto simp: clean_symbols_def)
qed

lemma Phone2idx_sorted_empty:
  assumes "clean_symbols S"
  shows "Phone2idx_call (Phone2idx_init (write_lines (sorted_list_of_set S)) []) [] = Inl KeyError"
  by (rule Phone2idx_call_empty) (simp add: retained_sorted_clean [OF assms])

lemma tokenize_phone_error: "tokenize_phone p61 p48 p39 is_test entry = Inl e \<Longrightarrow> e = KeyError"
  by (auto simp: tokenize_phone_def Let_def split: if_splits sum.splits dest: Phone2idx_call_error)

lemma tokenize_phone_empty:
  assumes "Phone2idx_call p48 [] = Inl KeyError" and "Phone2idx_call p39 [] = Inl KeyError"
    and "t48 = [] \<or> t39 = []"
  shows "tokenize_phone p61 p48 p39 False [t61, t48, t39] = Inl KeyError"
proof (cases "tokenize_phone p61 p48 p39 False [t61, t48, t39]")
  case (Inl e)
  then show ?thesis using tokenize_phone_error [OF Inl] by simp
next
  case (Inr r)
  with assms show ?thesis
    by (auto simp: tokenize_phone_def Let_def split: sum.splits)
qed

lemma tokenize_all_fails:
  assumes "(u, v) \<in> set td" and "f v = Inl KeyError"
    and "\<And>x e. f x = Inl e \<Longrightarrow> e = KeyError"
  shows "tokenize_all f td = Inl KeyError"
  using assms(1)
proof (induction td)
  case Nil
  then show ?case by simp
next
  case (Cons a td)
  obtain u' v' where a: "a = (u', v')" by (cases a)
  show ?case
  proof (cases "f v'")
    case (Inl e)
    with assms(3) [OF Inl] a show ?thesis by simp
  next
    case (Inr r)
    with assms(2) have "v' \<noteq> v" by auto
    with Cons.prems a have "(u, v) \<in> set td" by auto
    from Cons.IH [OF this] Inr a show ?thesis by simp
  qed
qed

lemma update_member: "(k, v) \<in> set (AList.update k v al)"
  by (induction al) auto

section \<open>The index dict is injective\<close>

lemma update_fresh_value:
  assumes "distinct (map snd m)" and "\<forall>v\<in>snd ` set m. v < n"
  shows "distinct (map snd (AList.update k n m)) \<and> (\<forall>v\<in>snd ` set (AList.update k n m). v < Suc n)"
  using assms
proof (induction m)
  case Nil
  then show ?case by simp
next
  case (Cons p m)
  obtain k' v' where p: "p = (k', v')" by (cases p)
  from Cons.prems p have d: "distinct (map snd m)" and b: "\<forall>v\<in>snd ` set m. v < n"
    and v': "v' < n" and nin: "v' \<notin> snd ` set m"
    by auto
  show ?case
  proof (cases "k' = k")
    case True
    from b have "n \<notin> snd ` set m" by auto
    with True p d b show ?thesis by (auto simp: less_Suc_eq)
  next
    case False
    from Cons.IH [OF d b] have ih: "distinct (map snd (AList.update k n m))"
      "\<forall>v\<in>snd ` set (AList.update k n m). v < Suc n" by auto
    have sub: "snd ` set (AList.update k n m) \<subseteq> insert n (snd ` set m)"
      by (induction m) auto
    with v' nin have "v' \<notin> snd ` set (AList.update k n m)" by auto
    with False p ih v' show ?thesis by (auto simp: less_Suc_eq)
  qed
qed

lemma read_vocab_values:
  assumes "distinct (map snd m)" and "\<forall>v\<in>snd ` set m. v < n"
  shows "distinct (map snd (fst (read_vocab ls rl m n))) \<and>
         (\<forall>v\<in>snd ` set (fst (read_vocab ls rl m n)). v < snd (read_vocab ls rl m n))"
  using assms
proof (induction ls arbitrary: m n)
  case Nil
  then show ?case by simp
next
  case (Cons l ls)
  show ?case
  proof (cases "strip l \<in> set rl")
    case True
    with Cons.IH [OF Cons.prems] show ?thesis by (simp add: Let_def)
  next
    case False
    from update_fresh_value [OF Cons.prems, of "strip l"]
    have "distinct (map snd (AList.update (strip l) n m))"
      and "\<forall>v\<in>snd ` set (AList.update (strip l) n m). v < Suc n" by auto
    from Cons.IH [OF this] False show ?thesis by (simp add: Let_def)
  qed
qed

lemma add_sos_eos_values:
  assumes "distinct (map snd (fst mc))" and "\<forall>v\<in>snd ` set (fst mc). v < snd mc"
  shows "distinct (map snd (add_sos_eos mc))"
proof -
  obtain m n where mc: "mc = (m, n)" by (cases mc)
  with assms have 1: "distinct (map snd m)" "\<forall>v\<in>snd ` set m. v < n" by auto
  from update_fresh_value [OF 1, of "''<''"]
  have 2: "distinct (map snd (AList.update ''<'' n m))"
    "\<forall>v\<in>snd ` set (AList.update ''<'' n m). v < Suc n" by auto
  from update_fresh_value [OF 2, of "''>''"] mc show ?thesis
    by (simp add: add_sos_eos_def)
qed

lemma vocab_dict_distinct:
  "distinct (map snd (add_sos_eos (read_vocab (lines_of vf) rl [] 0)))"
  by (rule add_sos_eos_values) (use read_vocab_values [of "[]" 0 "lines_of vf" rl] in simp_all)

lemma inverse_dict_lookup:
  assumes "distinct (map snd m)" and "map_of m k = Some i"
  shows "map_of (inverse_dict m) i = Some k"
proof -
  from assms(2) have "(k, i) \<in> set m" by (rule map_of_SomeD)
  then have "(i, k) \<in> set (inverse_dict m)" by (force simp: inverse_dict_def)
  moreover have "map fst (inverse_dict m) = map snd m"
    by (simp add: inverse_dict_def case_prod_beta comp_def)
  ultimately show ?thesis using assms(1) by (simp add: map_of_is_SomeI)
qed

section \<open>Plain tokenization\<close>

lemma lookup_all_present:
  assumes "\<forall>x\<in>set xs. map_of m x \<noteq> None"
  shows "\<exists>idx. lookup_all m xs = Inr idx \<and> map (\<lambda>i. Some i) idx = map (map_of m) xs"
  using assms
proof (induction xs)
  case Nil
  then show ?case by simp
next
  case (Cons x xs)
  then obtain idx where idx: "lookup_all m xs = Inr idx" "map (\<lambda>i. Some i) idx = map (map_of m) xs"
    by auto
  from Cons.prems obtain i where "map_of m x = Some i" by auto
  with idx show ?case by simp
qed

text \<open>
  C7. For a \<open>Char2idx\<close> built from any vocabulary file in plain mode (neither
  \<open>capital_divide\<close> nor \<open>double_letter\<close>) and a transcript whose characters are
  all keys of the dict, the call returns an index list, and looking each index up
  in the inverse dict gives back the transcript, character for character.
\<close>

theorem plain_round_trip:
  assumes "self = Char2idx_init vocab_file sm False False rl"
    and "\<forall>c\<in>set transcript. map_of (map_dict self) [c] \<noteq> None"
  shows "\<exists>index_list. Char2idx_call self transcript = Inr index_list \<and>
           map (map_of (inverse_dict (map_dict self))) index_list = map (\<lambda>c. Some [c]) transcript"
proof -
  let ?m = "map_dict self"
  from assms(1) have plain: "\<not> capital_divide self" "\<not> double_letter self"
    and d: "distinct (map snd ?m)"
    by (simp_all add: Char2idx_init_def vocab_dict_distinct)
  from assms(2) have "\<forall>x\<in>set (map (\<lambda>c. [c]) transcript). map_of ?m x \<noteq> None" by simp
  from lookup_all_present [OF this]
  obtain idx where idx: "lookup_all ?m (map (\<lambda>c. [c]) transcript) = Inr idx"
    and eq: "map (\<lambda>i. Some i) idx = map (map_of ?m) (map (\<lambda>c. [c]) transcript)"
    by blast
  from eq have len: "length idx = length transcript"
    by (metis length_map)
  have "map (map_of (inverse_dict ?m)) idx = map (\<lambda>c. Some [c]) transcript"
  proof (rule nth_equalityI)
    show "length (map (map_of (inverse_dict ?m)) idx) = length (map (\<lambda>c. Some [c]) transcript)"
      using len by simp
  next
    fix j assume "j < length (map (map_of (inverse_dict ?m)) idx)"
    then have j: "j < length idx" "j < length transcript" using len by simp_all
    from eq have "map (\<lambda>i. Some i) idx ! j = map (map_of ?m) (map (\<lambda>c. [c]) transcript) ! j"
      by simp
    with j have "map_of ?m [transcript ! j] = Some (idx ! j)" by simp
    from inverse_dict_lookup [OF d this] j
    show "map (map_of (inverse_dict ?m)) idx ! j = map (\<lambda>c. Some [c]) transcript ! j"
      by simp
  qed
  with idx plain show ?thesis by (simp add: Char2idx_call_def)
qed

text \<open>The vocabulary \<open>a\<close>, \<open>b\<close>, \<open>_\<close>, apostrophe and the transcript \<open>ab_a\<close>.\<close>

theorem plain_round_trip_witness:
  "\<exists>index_list.
     Char2idx_call (Char2idx_init (write_lines [''a'', ''b'', ''_'', [CHR 0x27]]) ''_'' False False []) ''ab_a''
       = Inr index_list \<and>
     map (map_of (inverse_dict (map_dict
        (Char2idx_init (write_lines [''a'', ''b'', ''_'', [CHR 0x27]]) ''_'' False False [])))) index_list
       = map (\<lambda>c. Some [c]) ''ab_a''"
proof -
  let ?self = "Char2idx_init (write_lines [''a'', ''b'', ''_'', [CHR 0x27]]) ''_'' False False []"
  have "\<forall>c\<in>set ''ab_a''. map_of (map_dict ?self) [c] \<noteq> None" by code_simp
  with refl show ?thesis by (rule plain_round_trip)
qed

section \<open>The symbol sets of read\_char depend on the set of label files only\<close>

lemma set_scan_stop: "\<not> i < stop \<Longrightarrow> set_scan w i stop skip_flag S = (skip_flag, S)"
  by (subst set_scan.simps) simp

lemma set_scan_skip: "i < stop \<Longrightarrow> set_scan w i stop True S = set_scan w (Suc i) stop False S"
  by (subst set_scan.simps) simp

lemma set_scan_double:
  "i < stop \<Longrightarrow> take 2 (drop i w) \<in> set DOUBLE_LETTERS \<Longrightarrow>
   set_scan w i stop False S = set_scan w (Suc i) stop True (insert (take 2 (drop i w)) S)"
  by (subst set_scan.simps) simp

lemma set_scan_single:
  "i < stop \<Longrightarrow> take 2 (drop i w) \<notin> set DOUBLE_LETTERS \<Longrightarrow>
   set_scan w i stop False S = set_scan w (Suc i) stop False (insert [w ! i] S)"
  by (subst set_scan.simps) simp

lemma set_scan_union:
  "set_scan w i stop skip_flag (S \<union> T)
     = (fst (set_scan w i stop skip_flag T), S \<union> snd (set_scan w i stop skip_flag T))"
proof (induction w i stop skip_flag T rule: set_scan.induct)
  case (1 w i stop skip_flag T)
  show ?case
  proof (cases "i < stop")
    case False
    then show ?thesis
      by (simp add: set_scan_stop set_scan_skip set_scan_double set_scan_single)
  next
    case True
    note lt = this
    show ?thesis
    proof (cases skip_flag)
      case True
      with lt 1(1) show ?thesis
        by (simp add: set_scan_stop set_scan_skip set_scan_double set_scan_single)
    next
      case False
      note ns = this
      show ?thesis
      proof (cases "take 2 (drop i w) \<in> set DOUBLE_LETTERS")
        case True
        with lt ns 1(2) [OF lt ns True] show ?thesis
          by (simp add: set_scan_stop set_scan_skip set_scan_double set_scan_single)
      next
        case False
        with lt ns 1(3) [OF lt ns False] show ?thesis
          by (simp add: set_scan_stop set_scan_skip set_scan_double set_scan_single)
      qed
    qed
  qed
qed

lemma set_scan_finite:
  "finite T \<Longrightarrow> finite (snd (set_scan w i stop skip_flag T))"
proof (induction w i stop skip_flag T rule: set_scan.induct)
  case (1 w i stop skip_flag T)
  show ?case
  proof (cases "i < stop")
    case False
    with 1(4) show ?thesis by (simp add: set_scan_stop set_scan_skip set_scan_double set_scan_single)
  next
    case True
    note lt = this
    show ?thesis
    proof (cases skip_flag)
      case True
      with lt 1(1) 1(4) show ?thesis by (simp add: set_scan_stop set_scan_skip set_scan_double set_scan_single)
    next
      case False
      note ns = this
      show ?thesis
      proof (cases "take 2 (drop i w) \<in> set DOUBLE_LETTERS")
        case True
        with lt ns 1(2) [OF lt ns True] 1(4) show ?thesis
          by (simp add: set_scan_stop set_scan_skip set_scan_double set_scan_single)
      next
        case False
        with lt ns 1(3) [OF lt ns False] 1(4) show ?thesis
          by (simp add: set_scan_stop set_scan_skip set_scan_double set_scan_single)
      qed
    qed
  qed
qed

lemma set_scan_insert:
  "set_scan w i stop skip_flag (insert x S)
     = (fst (set_scan w i stop skip_flag {x}), S \<union> snd (set_scan w i stop skip_flag {x}))"
  using set_scan_union [of w i stop skip_flag S "{x}"] by simp

lemma capital_set_word_union:
  "capital_set_word w S = (case capital_set_word w {} of Inl e \<Rightarrow> Inl e | Inr A \<Rightarrow> Inr (S \<union> A))"
proof (cases "length w = 1")
  case True
  then show ?thesis by (simp add: capital_set_word_def)
next
  case False
  note len = this
  show ?thesis
  proof (cases w)
    case Nil
    then show ?thesis by (simp add: capital_set_word_def)
  next
    case (Cons c cs)
    let ?word = "upper [c] @ cs"
    let ?x = "upper (take 1 ?word)"
    let ?r = "set_scan ?word 1 (length ?word - 1) False {?x}"
    have 1: "set_scan ?word 1 (length ?word - 1) False (insert ?x S) = (fst ?r, S \<union> snd ?r)"
      by (rule set_scan_insert)
    have u: "capital_set_word w T
        = Inr (if \<not> fst (set_scan ?word 1 (length ?word - 1) False (insert ?x T))
               then insert [last ?word] (snd (set_scan ?word 1 (length ?word - 1) False (insert ?x T)))
               else snd (set_scan ?word 1 (length ?word - 1) False (insert ?x T)))" for T
      using len Cons by (simp add: capital_set_word_def Let_def)
    have 2: "capital_set_word w S
        = Inr (if \<not> fst ?r then insert [last ?word] (S \<union> snd ?r) else S \<union> snd ?r)"
      by (simp only: u [of S] 1 fst_conv snd_conv)
    have 3: "capital_set_word w {}
        = Inr (if \<not> fst ?r then insert [last ?word] (snd ?r) else snd ?r)"
      by (rule u)
    show ?thesis unfolding 2 3 by simp
  qed
qed

lemma capital_set_words_union:
  "capital_set_words ws S = (case capital_set_words ws {} of Inl e \<Rightarrow> Inl e | Inr A \<Rightarrow> Inr (S \<union> A))"
proof (induction ws arbitrary: S)
  case Nil
  then show ?case by simp
next
  case (Cons w ws)
  show ?case
  proof (cases "capital_set_word w {}")
    case (Inl e)
    then show ?thesis by (simp add: capital_set_word_union [of w S])
  next
    case (Inr A1)
    then have s: "capital_set_word w S = Inr (S \<union> A1)"
      by (simp add: capital_set_word_union [of w S])
    show ?thesis
    proof (cases "capital_set_words ws {}")
      case (Inl e)
      with Inr s show ?thesis
        by (simp add: Cons.IH [of "S \<union> A1"] Cons.IH [of A1])
    next
      case (Inr A2)
      with \<open>capital_set_word w {} = Inr A1\<close> s show ?thesis
        by (simp add: Cons.IH [of "S \<union> A1"] Cons.IH [of A1] Un_assoc)
    qed
  qed
qed

lemma fold_insert_image: "fold (\<lambda>c. insert (f c)) t S = S \<union> f ` set t"
  by (induction t arbitrary: S) auto

lemma capital_set_word_finite:
  "capital_set_word w S = Inr S' \<Longrightarrow> finite S \<Longrightarrow> finite S'"
  by (auto simp: capital_set_word_def Let_def set_scan_finite split: if_splits list.splits)

lemma capital_set_words_finite:
  "capital_set_words ws S = Inr S' \<Longrightarrow> finite S \<Longrightarrow> finite S'"
proof (induction ws arbitrary: S)
  case Nil
  then show ?case by simp
next
  case (Cons w ws)
  from Cons.prems(1) obtain S1 where 1: "capital_set_word w S = Inr S1"
    and 2: "capital_set_words ws S1 = Inr S'"
    by (auto split: sum.splits)
  from 1 Cons.prems(2) have "finite S1" by (rule capital_set_word_finite)
  with 2 show ?case by (rule Cons.IH)
qed

lemma read_char_file_symbols:
  "read_char_file lf (td, cs, ccs) =
     (case read_char_file lf ([], {}, {}) of
        Inl e \<Rightarrow> Inl e
      | Inr (td0, A, B) \<Rightarrow> Inr (AList.update (fst (hd td0)) (snd (hd td0)) td, cs \<union> A, ccs \<union> B))"
proof -
  obtain label_path content where lf: "lf = (label_path, content)" by (cases lf)
  show ?thesis
  proof (cases "lines_of content")
    case Nil
    with lf show ?thesis by (simp add: read_char_file_def)
  next
    case (Cons l ls)
    note lines = this
    show ?thesis
    proof (cases "utt_name_of label_path")
      case (Inl e)
      with lf lines show ?thesis by (simp add: read_char_file_def)
    next
      case (Inr utt_name)
      note name = this
      show ?thesis
      proof (cases "clean_transcript (last (l # ls))")
        case (Inl e)
        with lf lines name show ?thesis by (simp add: read_char_file_def)
      next
        case (Inr transcript)
        note tr = this
        show ?thesis
        proof (cases "capital_set_words (split_sep '' '' transcript) {}")
          case (Inl e)
          with lf lines name tr show ?thesis
            by (simp add: read_char_file_def
                capital_set_words_union [of "split_sep '' '' transcript" ccs])
        next
          case (Inr B)
          with lf lines name tr show ?thesis
            by (simp add: read_char_file_def Let_def fold_insert_image
                capital_set_words_union [of "split_sep '' '' transcript" ccs])
        qed
      qed
    qed
  qed
qed

lemma read_char_file_Inl:
  "file_symbols lf = Inl e \<Longrightarrow> read_char_file lf st = Inl e"
proof -
  assume e: "file_symbols lf = Inl e"
  obtain td cs ccs where st: "st = (td, cs, ccs)" by (cases st)
  from e have "read_char_file lf ([], {}, {}) = Inl e"
    by (simp add: file_symbols_def split: sum.splits prod.splits)
  then show ?thesis unfolding st read_char_file_symbols [of lf td cs ccs] by simp
qed

lemma read_char_file_Inr:
  "file_symbols lf = Inr (A, B) \<Longrightarrow> \<exists>td'. read_char_file lf (td, cs, ccs) = Inr (td', cs \<union> A, ccs \<union> B)"
proof -
  assume "file_symbols lf = Inr (A, B)"
  then obtain td0 where "read_char_file lf ([], {}, {}) = Inr (td0, A, B)"
    by (auto simp: file_symbols_def split: sum.splits prod.splits)
  then show ?thesis unfolding read_char_file_symbols [of lf td cs ccs] by simp
qed

lemma file_symbols_error: "file_symbols lf = Inl e \<Longrightarrow> e = IndexError"
  by (auto simp: file_symbols_def split: sum.splits prod.splits dest: read_char_file_error)

lemma read_char_scan_Inl:
  assumes "lf \<in> set lfs" and "file_symbols lf = Inl e"
  shows "read_char_scan lfs st = Inl IndexError"
proof (rule read_char_scan_fails [OF assms(1)])
  fix st'
  from assms(2) have "read_char_file lf st' = Inl e" by (rule read_char_file_Inl)
  with file_symbols_error [OF assms(2)] show "read_char_file lf st' = Inl IndexError" by simp
qed

lemma read_char_scan_Inr:
  assumes "\<forall>lf\<in>set lfs. \<exists>A B. file_symbols lf = Inr (A, B)"
  shows "\<exists>td'. read_char_scan lfs (td, cs, ccs) =
           Inr (td', cs \<union> (\<Union>lf\<in>set lfs. fst (projr (file_symbols lf))),
                     ccs \<union> (\<Union>lf\<in>set lfs. snd (projr (file_symbols lf))))"
  using assms
proof (induction lfs arbitrary: td cs ccs)
  case Nil
  then show ?case by simp
next
  case (Cons lf lfs)
  from Cons.prems obtain A B where ab: "file_symbols lf = Inr (A, B)" by auto
  from read_char_file_Inr [OF ab, of td cs ccs]
  obtain td1 where 1: "read_char_file lf (td, cs, ccs) = Inr (td1, cs \<union> A, ccs \<union> B)" by blast
  from Cons.prems have "\<forall>lf\<in>set lfs. \<exists>A B. file_symbols lf = Inr (A, B)" by simp
  from Cons.IH [OF this, of td1 "cs \<union> A" "ccs \<union> B"]
  obtain td' where 2: "read_char_scan lfs (td1, cs \<union> A, ccs \<union> B) =
           Inr (td', cs \<union> A \<union> (\<Union>lf\<in>set lfs. fst (projr (file_symbols lf))),
                     ccs \<union> B \<union> (\<Union>lf\<in>set lfs. snd (projr (file_symbols lf))))" by blast
  from 1 2 ab show ?case by (simp add: Un_assoc)
qed

lemma read_char_file_finite:
  assumes "read_char_file lf (td, cs, ccs) = Inr (td', cs', ccs')" and "finite cs" and "finite ccs"
  shows "finite cs' \<and> finite ccs'"
proof -
  obtain label_path content where lf: "lf = (label_path, content)" by (cases lf)
  from assms(1) lf obtain transcript where
    c: "capital_set_words (split_sep '' '' transcript) ccs = Inr ccs'"
    and f: "cs' = fold (\<lambda>c. insert [c]) (space_to_mark transcript) cs"
    by (auto simp: read_char_file_def Let_def split: list.splits sum.splits)
  from c assms(3) have "finite ccs'" by (rule capital_set_words_finite)
  moreover from f assms(2) have "finite cs'" by (simp add: fold_insert_image)
  ultimately show ?thesis by simp
qed

lemma read_char_scan_finite:
  assumes "read_char_scan lfs (td, cs, ccs) = Inr (td', cs', ccs')" and "finite cs" and "finite ccs"
  shows "finite cs' \<and> finite ccs'"
  using assms
proof (induction lfs arbitrary: td cs ccs)
  case Nil
  then show ?case by simp
next
  case (Cons lf lfs)
  from Cons.prems(1) obtain td1 cs1 ccs1 where 1: "read_char_file lf (td, cs, ccs) = Inr (td1, cs1, ccs1)"
    and 2: "read_char_scan lfs (td1, cs1, ccs1) = Inr (td', cs', ccs')"
    by (auto split: sum.splits)
  from read_char_file_finite [OF 1 Cons.prems(2,3)] have "finite cs1" "finite ccs1" by simp_all
  with 2 show ?case by (rule Cons.IH)
qed

lemma fst_read_char:
  "fst (read_char lfs files save_vocab_file is_test) =
     (case read_char_scan lfs ([], {}, {}) of
        Inl e \<Rightarrow> files
      | Inr (td, cs, ccs) \<Rightarrow> save_char_vocab save_vocab_file cs ccs files)"
  by (simp add: read_char_def Let_def split: sum.splits prod.splits)

lemma read_char_files_set:
  assumes "set lfs = set lfs'"
  shows "fst (read_char lfs files save is_test) = fst (read_char lfs' files save is_test')"
proof (cases "\<forall>lf\<in>set lfs. \<exists>A B. file_symbols lf = Inr (A, B)")
  case True
  from read_char_scan_Inr [OF True, of "[]" "{}" "{}"] obtain td where
    1: "read_char_scan lfs ([], {}, {}) = Inr (td, {} \<union> (\<Union>lf\<in>set lfs. fst (projr (file_symbols lf))),
          {} \<union> (\<Union>lf\<in>set lfs. snd (projr (file_symbols lf))))" by blast
  from True assms have "\<forall>lf\<in>set lfs'. \<exists>A B. file_symbols lf = Inr (A, B)" by simp
  from read_char_scan_Inr [OF this, of "[]" "{}" "{}"] obtain td' where
    2: "read_char_scan lfs' ([], {}, {}) = Inr (td', {} \<union> (\<Union>lf\<in>set lfs'. fst (projr (file_symbols lf))),
          {} \<union> (\<Union>lf\<in>set lfs'. snd (projr (file_symbols lf))))" by blast
  show ?thesis unfolding fst_read_char 1 2 assms by simp
next
  case False
  then obtain lf where lf: "lf \<in> set lfs" and "\<not> (\<exists>A B. file_symbols lf = Inr (A, B))" by blast
  then obtain e where e: "file_symbols lf = Inl e"
    by (cases "file_symbols lf") auto
  from lf assms have lf': "lf \<in> set lfs'" by simp
  show ?thesis
    unfolding fst_read_char read_char_scan_Inl [OF lf e] read_char_scan_Inl [OF lf' e] by simp
qed

section \<open>The symbol sets of read\_phone depend on the set of rows only\<close>

lemma read_phone_sets_ok:
  assumes "\<forall>l\<in>set ls. row_ok (split_ws (strip l))"
  shows "read_phone_sets ls (s61, s48, s39) =
           Inr (s61 \<union> (\<lambda>row. row ! 0) ` (\<lambda>l. split_ws (strip l)) ` set ls,
                s48 \<union> (\<lambda>row. row ! 1) ` {row \<in> (\<lambda>l. split_ws (strip l)) ` set ls. row ! 1 \<noteq> ''nan''},
                s39 \<union> (\<lambda>row. row ! 2) ` {row \<in> (\<lambda>l. split_ws (strip l)) ` set ls. row ! 1 \<noteq> ''nan''})"
  using assms
proof (induction ls arbitrary: s61 s48 s39)
  case Nil
  then show ?case by simp
next
  case (Cons l ls)
  let ?row = "split_ws (strip l)"
  from Cons.prems have ok: "row_ok ?row" and rest: "\<forall>l\<in>set ls. row_ok (split_ws (strip l))"
    by auto
  show ?case
  proof (cases "?row ! 1 = ''nan''")
    case True
    with ok have "read_phone_sets (l # ls) (s61, s48, s39) = read_phone_sets ls (insert (?row ! 0) s61, s48, s39)"
      by (simp add: Let_def row_ok_def)
    also note Cons.IH [OF rest]
    finally show ?thesis using True by auto
  next
    case False
    with ok have "read_phone_sets (l # ls) (s61, s48, s39)
        = read_phone_sets ls (insert (?row ! 0) s61, insert (?row ! 1) s48, insert (?row ! 2) s39)"
      by (simp add: Let_def row_ok_def)
    also note Cons.IH [OF rest]
    finally show ?thesis using False by auto
  qed
qed

lemma read_phone_sets_error: "read_phone_sets ls st = Inl e \<Longrightarrow> e = IndexError"
proof (induction ls arbitrary: st)
  case Nil
  then show ?case by simp
next
  case (Cons l ls)
  obtain a b c where st: "st = (a, b, c)" by (cases st)
  from Cons.prems show ?case unfolding st
    by (simp add: Let_def split: if_splits) (erule Cons.IH)+
qed

lemma read_phone_sets_bad:
  assumes "l \<in> set ls" and "\<not> row_ok (split_ws (strip l))"
  shows "read_phone_sets ls st = Inl IndexError"
  using assms(1)
proof (induction ls arbitrary: st)
  case Nil
  then show ?case by simp
next
  case (Cons a ls)
  obtain s61 s48 s39 where st: "st = (s61, s48, s39)" by (cases st)
  show ?case
  proof (cases "row_ok (split_ws (strip a))")
    case False
    then show ?thesis unfolding st by (auto simp: Let_def row_ok_def)
  next
    case True
    with assms(2) Cons.prems have "l \<in> set ls" by auto
    then have ih: "read_phone_sets ls st' = Inl IndexError" for st' by (rule Cons.IH)
    from True show ?thesis unfolding st by (simp add: Let_def row_ok_def ih)
  qed
qed

lemma read_phone_sets_set:
  assumes "set ls = set ls'"
  shows "read_phone_sets ls st = read_phone_sets ls' st"
proof (cases "\<forall>l\<in>set ls. row_ok (split_ws (strip l))")
  case True
  obtain a b c where st: "st = (a, b, c)" by (cases st)
  from True assms have "\<forall>l\<in>set ls'. row_ok (split_ws (strip l))" by simp
  from read_phone_sets_ok [OF True, of a b c] read_phone_sets_ok [OF this, of a b c] assms st
  show ?thesis by simp
next
  case False
  then obtain l where l: "l \<in> set ls" "\<not> row_ok (split_ws (strip l))" by blast
  with assms have "l \<in> set ls'" by simp
  with l read_phone_sets_bad [of l ls st] read_phone_sets_bad [of l ls' st] show ?thesis by simp
qed

lemma fst_read_phone:
  "fst (read_phone map_file lfs files save_vocab_file is_test) =
     (case read_phone_sets (lines_of map_file) ({}, {}, {}) of
        Inl e \<Rightarrow> files
      | Inr sets \<Rightarrow> save_phone_vocab save_vocab_file sets files)"
  by (simp add: read_phone_def Let_def split: sum.splits)

lemma sorted_list_of_set_lines:
  assumes "finite S"
  shows "sorted (sorted_list_of_set S) \<and> distinct (sorted_list_of_set S) \<and> set (sorted_list_of_set S) = S"
  using assms by simp

text \<open>
  C8. With \<open>save_vocab_file\<close> set, the vocabulary files after \<open>read_char\<close> are
  the same for two corpora with the same set of label files, whatever their
  order, and the vocabulary files after \<open>read_phone\<close> are the same for two
  mapping files with the same set of lines (they do not depend on the label files
  at all). When the scan runs through, the content of the character file is, byte
  for byte, each symbol followed by a line feed, for the sorted, duplicate-free
  symbols of \<open>char_set\<close> other than \<open>_\<close> and the apostrophe, then \<open>_\<close>, then
  the apostrophe; the capital-divided file is the same for the sorted,
  duplicate-free units other than the apostrophe, then the apostrophe; the three
  phone files are the sorted, duplicate-free symbols of their sets, each followed
  by a line feed, and nothing more.
\<close>

theorem vocabulary_deterministic:
  assumes "set label_files = set label_files'"
    and "set (lines_of map_file) = set (lines_of map_file')"
  shows "fst (read_char label_files files True is_test) = fst (read_char label_files' files True is_test') \<and>
         fst (read_phone map_file phone_files pfiles True is_test)
           = fst (read_phone map_file' phone_files' pfiles True is_test') \<and>
         (read_char_scan label_files ([], {}, {}) = Inr (trans_dict, char_set, char_capital_set) \<longrightarrow>
            (\<exists>xs ys. fst (read_char label_files files True is_test)
                        = (Some (concat (map (\<lambda>x. x @ [CHR 0x0A]) (xs @ [''_'', [CHR 0x27]]))),
                           Some (concat (map (\<lambda>x. x @ [CHR 0x0A]) (ys @ [[CHR 0x27]])))) \<and>
                     sorted xs \<and> distinct xs \<and> set xs = char_set - {''_'', [CHR 0x27]} \<and>
                     sorted ys \<and> distinct ys \<and> set ys = char_capital_set - {[CHR 0x27]})) \<and>
         (read_phone_sets (lines_of map_file) ({}, {}, {}) = Inr (phone61_set, phone48_set, phone39_set) \<longrightarrow>
            (\<exists>xs ys zs. fst (read_phone map_file phone_files pfiles True is_test)
                        = (Some (concat (map (\<lambda>x. x @ [CHR 0x0A]) xs)),
                           Some (concat (map (\<lambda>x. x @ [CHR 0x0A]) ys)),
                           Some (concat (map (\<lambda>x. x @ [CHR 0x0A]) zs))) \<and>
                     sorted xs \<and> distinct xs \<and> set xs = phone61_set \<and>
                     sorted ys \<and> distinct ys \<and> set ys = phone48_set \<and>
                     sorted zs \<and> distinct zs \<and> set zs = phone39_set))"
proof (intro conjI impI)
  show "fst (read_char label_files files True is_test) = fst (read_char label_files' files True is_test')"
    using assms(1) by (rule read_char_files_set)
next
  show "fst (read_phone map_file phone_files pfiles True is_test)
           = fst (read_phone map_file' phone_files' pfiles True is_test')"
    unfolding fst_read_phone read_phone_sets_set [OF assms(2)] ..
next
  assume scan: "read_char_scan label_files ([], {}, {}) = Inr (trans_dict, char_set, char_capital_set)"
  from read_char_scan_finite [OF scan] have fin: "finite char_set" "finite char_capital_set" by simp_all
  let ?xs = "sorted_list_of_set (char_set - {''_''} - {[CHR 0x27]})"
  let ?ys = "sorted_list_of_set (char_capital_set - {[CHR 0x27]})"
  have "fst (read_char label_files files True is_test)
          = (Some (concat (map (\<lambda>x. x @ [CHR 0x0A]) (?xs @ [''_'', [CHR 0x27]]))),
             Some (concat (map (\<lambda>x. x @ [CHR 0x0A]) (?ys @ [[CHR 0x27]]))))"
    unfolding fst_read_char scan
    by (simp add: save_char_vocab_def char_list_def char_capital_list_def write_lines_def
        SPACE_def APOSTROPHE_def)
  moreover from fin have "sorted ?xs \<and> distinct ?xs \<and> set ?xs = char_set - {''_'', [CHR 0x27]}"
    by auto
  moreover from fin have "sorted ?ys \<and> distinct ?ys \<and> set ?ys = char_capital_set - {[CHR 0x27]}"
    by auto
  ultimately show "\<exists>xs ys. fst (read_char label_files files True is_test)
                        = (Some (concat (map (\<lambda>x. x @ [CHR 0x0A]) (xs @ [''_'', [CHR 0x27]]))),
                           Some (concat (map (\<lambda>x. x @ [CHR 0x0A]) (ys @ [[CHR 0x27]])))) \<and>
                     sorted xs \<and> distinct xs \<and> set xs = char_set - {''_'', [CHR 0x27]} \<and>
                     sorted ys \<and> distinct ys \<and> set ys = char_capital_set - {[CHR 0x27]}"
    by blast
next
  assume sets: "read_phone_sets (lines_of map_file) ({}, {}, {}) = Inr (phone61_set, phone48_set, phone39_set)"
  from read_phone_sets_clean [OF sets] have "finite phone61_set" "finite phone48_set" "finite phone39_set"
    by (simp_all add: clean_symbols_def)
  then have "sorted (sorted_list_of_set phone61_set) \<and> distinct (sorted_list_of_set phone61_set) \<and>
               set (sorted_list_of_set phone61_set) = phone61_set"
    and "sorted (sorted_list_of_set phone48_set) \<and> distinct (sorted_list_of_set phone48_set) \<and>
               set (sorted_list_of_set phone48_set) = phone48_set"
    and "sorted (sorted_list_of_set phone39_set) \<and> distinct (sorted_list_of_set phone39_set) \<and>
               set (sorted_list_of_set phone39_set) = phone39_set"
    by (simp_all add: sorted_list_of_set_lines)
  moreover have "fst (read_phone map_file phone_files pfiles True is_test)
      = (Some (concat (map (\<lambda>x. x @ [CHR 0x0A]) (sorted_list_of_set phone61_set))),
         Some (concat (map (\<lambda>x. x @ [CHR 0x0A]) (sorted_list_of_set phone48_set))),
         Some (concat (map (\<lambda>x. x @ [CHR 0x0A]) (sorted_list_of_set phone39_set))))"
    unfolding fst_read_phone sets by (simp add: save_phone_vocab_def write_lines_def)
  ultimately show "\<exists>xs ys zs. fst (read_phone map_file phone_files pfiles True is_test)
                        = (Some (concat (map (\<lambda>x. x @ [CHR 0x0A]) xs)),
                           Some (concat (map (\<lambda>x. x @ [CHR 0x0A]) ys)),
                           Some (concat (map (\<lambda>x. x @ [CHR 0x0A]) zs))) \<and>
                     sorted xs \<and> distinct xs \<and> set xs = phone61_set \<and>
                     sorted ys \<and> distinct ys \<and> set ys = phone48_set \<and>
                     sorted zs \<and> distinct zs \<and> set zs = phone39_set"
    by blast
qed

lemma sorted_distinct_list_eq:
  fixes xs ys :: "string list"
  assumes "sorted xs" "distinct xs" "sorted ys" "distinct ys" "set xs = set ys"
  shows "xs = ys"
  using assms by (intro sorted_distinct_set_unique) simp_all

text \<open>Two label files in both orders, and a mapping file of two rows in both
  orders, with the bytes of the five files.\<close>

theorem vocabulary_deterministic_witness:
  "fst (read_char [(''timit/dr1/fcjf0/sa1.txt'', ''0 100 all in'' @ [CHR 0x0A]), (''timit/dr1/fcjf0/sa2.txt'', ''0 90 a lot'' @ [CHR 0x0A])] (None, None) True False) = fst (read_char [(''timit/dr1/fcjf0/sa2.txt'', ''0 90 a lot'' @ [CHR 0x0A]), (''timit/dr1/fcjf0/sa1.txt'', ''0 100 all in'' @ [CHR 0x0A])] (None, None) True False) \<and>
   fst (read_phone (''sh sh sh'' @ [CHR 0x0A] @ ''q nan nan'' @ [CHR 0x0A]) [] (None, None, None) True False) = fst (read_phone (''q nan nan'' @ [CHR 0x0A] @ ''sh sh sh'' @ [CHR 0x0A]) [] (None, None, None) True False) \<and>
   fst (read_char [(''timit/dr1/fcjf0/sa1.txt'', ''0 100 all in'' @ [CHR 0x0A]), (''timit/dr1/fcjf0/sa2.txt'', ''0 90 a lot'' @ [CHR 0x0A])] (None, None) True False)
     = (Some [CHR ''a'', CHR 0x0A, CHR ''i'', CHR 0x0A, CHR ''l'', CHR 0x0A, CHR ''n'', CHR 0x0A, CHR ''o'', CHR 0x0A, CHR ''t'', CHR 0x0A, CHR ''_'', CHR 0x0A, CHR 0x27, CHR 0x0A],
        Some [CHR ''A'', CHR 0x0A, CHR ''I'', CHR 0x0A, CHR ''L'', CHR 0x0A, CHR ''l'', CHR ''l'', CHR 0x0A, CHR ''n'', CHR 0x0A, CHR ''o'', CHR 0x0A, CHR ''t'', CHR 0x0A, CHR 0x27, CHR 0x0A]) \<and>
   fst (read_phone (''sh sh sh'' @ [CHR 0x0A] @ ''q nan nan'' @ [CHR 0x0A]) [] (None, None, None) True False)
     = (Some [CHR ''q'', CHR 0x0A, CHR ''s'', CHR ''h'', CHR 0x0A], Some [CHR ''s'', CHR ''h'', CHR 0x0A], Some [CHR ''s'', CHR ''h'', CHR 0x0A])"
proof -
  have h1: "set [(''timit/dr1/fcjf0/sa1.txt'', ''0 100 all in'' @ [CHR 0x0A]), (''timit/dr1/fcjf0/sa2.txt'', ''0 90 a lot'' @ [CHR 0x0A])] = set [(''timit/dr1/fcjf0/sa2.txt'', ''0 90 a lot'' @ [CHR 0x0A]), (''timit/dr1/fcjf0/sa1.txt'', ''0 100 all in'' @ [CHR 0x0A])]" by (simp add: insert_commute)
  have h2: "set (lines_of (''sh sh sh'' @ [CHR 0x0A] @ ''q nan nan'' @ [CHR 0x0A])) = set (lines_of (''q nan nan'' @ [CHR 0x0A] @ ''sh sh sh'' @ [CHR 0x0A]))" by code_simp
  have h3: "read_char_scan [(''timit/dr1/fcjf0/sa1.txt'', ''0 100 all in'' @ [CHR 0x0A]), (''timit/dr1/fcjf0/sa2.txt'', ''0 90 a lot'' @ [CHR 0x0A])] ([], {}, {}) = Inr ([(''fcjf0_sa1'', ''all_in''), (''fcjf0_sa2'', ''a_lot'')], {''a'', ''l'', ''_'', ''i'', ''n'', ''o'', ''t''}, {''A'', ''ll'', ''I'', ''n'', ''L'', ''o'', ''t''})" by code_simp
  have h4: "read_phone_sets (lines_of (''sh sh sh'' @ [CHR 0x0A] @ ''q nan nan'' @ [CHR 0x0A])) ({}, {}, {}) = Inr ({''q'', ''sh''}, {''sh''}, {''sh''})" by code_simp
  note T = vocabulary_deterministic [OF h1 h2, where files = "(None, None)" and is_test = False
      and is_test' = False and phone_files = "[]" and phone_files' = "[]" and pfiles = "(None, None, None)"
      and trans_dict = "[(''fcjf0_sa1'', ''all_in''), (''fcjf0_sa2'', ''a_lot'')]" and char_set = "{''a'', ''l'', ''_'', ''i'', ''n'', ''o'', ''t''}" and char_capital_set = "{''A'', ''ll'', ''I'', ''n'', ''L'', ''o'', ''t''}"
      and phone61_set = "{''q'', ''sh''}" and phone48_set = "{''sh''}" and phone39_set = "{''sh''}"]
  note t3 = T [THEN conjunct2, THEN conjunct2, THEN conjunct1, THEN mp, OF h3]
  note t4 = T [THEN conjunct2, THEN conjunct2, THEN conjunct2, THEN mp, OF h4]
  have a: "fst (read_char [(''timit/dr1/fcjf0/sa1.txt'', ''0 100 all in'' @ [CHR 0x0A]), (''timit/dr1/fcjf0/sa2.txt'', ''0 90 a lot'' @ [CHR 0x0A])] (None, None) True False) = fst (read_char [(''timit/dr1/fcjf0/sa2.txt'', ''0 90 a lot'' @ [CHR 0x0A]), (''timit/dr1/fcjf0/sa1.txt'', ''0 100 all in'' @ [CHR 0x0A])] (None, None) True False)"
    by (rule T [THEN conjunct1])
  have b: "fst (read_phone (''sh sh sh'' @ [CHR 0x0A] @ ''q nan nan'' @ [CHR 0x0A]) [] (None, None, None) True False) = fst (read_phone (''q nan nan'' @ [CHR 0x0A] @ ''sh sh sh'' @ [CHR 0x0A]) [] (None, None, None) True False)"
    by (rule T [THEN conjunct2, THEN conjunct1])
  from t3 have c: "fst (read_char [(''timit/dr1/fcjf0/sa1.txt'', ''0 100 all in'' @ [CHR 0x0A]), (''timit/dr1/fcjf0/sa2.txt'', ''0 90 a lot'' @ [CHR 0x0A])] (None, None) True False) = (Some [CHR ''a'', CHR 0x0A, CHR ''i'', CHR 0x0A, CHR ''l'', CHR 0x0A, CHR ''n'', CHR 0x0A, CHR ''o'', CHR 0x0A, CHR ''t'', CHR 0x0A, CHR ''_'', CHR 0x0A, CHR 0x27, CHR 0x0A], Some [CHR ''A'', CHR 0x0A, CHR ''I'', CHR 0x0A, CHR ''L'', CHR 0x0A, CHR ''l'', CHR ''l'', CHR 0x0A, CHR ''n'', CHR 0x0A, CHR ''o'', CHR 0x0A, CHR ''t'', CHR 0x0A, CHR 0x27, CHR 0x0A])"
  proof (elim exE conjE)
    fix xs ys
    assume cf: "fst (read_char [(''timit/dr1/fcjf0/sa1.txt'', ''0 100 all in'' @ [CHR 0x0A]), (''timit/dr1/fcjf0/sa2.txt'', ''0 90 a lot'' @ [CHR 0x0A])] (None, None) True False)
           = (Some (concat (map (\<lambda>x. x @ [CHR 0x0A]) (xs @ [''_'', [CHR 0x27]]))),
              Some (concat (map (\<lambda>x. x @ [CHR 0x0A]) (ys @ [[CHR 0x27]]))))"
      and xs: "sorted xs" "distinct xs" "set xs = {''a'', ''l'', ''_'', ''i'', ''n'', ''o'', ''t''} - {''_'', [CHR 0x27]}"
      and ys: "sorted ys" "distinct ys" "set ys = {''A'', ''ll'', ''I'', ''n'', ''L'', ''o'', ''t''} - {[CHR 0x27]}"
    have xs': "xs = [''a'', ''i'', ''l'', ''n'', ''o'', ''t'']"
    proof (rule sorted_distinct_list_eq)
      show "sorted xs" by (rule xs(1))
      show "distinct xs" by (rule xs(2))
      show "sorted [''a'', ''i'', ''l'', ''n'', ''o'', ''t'']" by code_simp
      show "distinct [''a'', ''i'', ''l'', ''n'', ''o'', ''t'']" by code_simp
      show "set xs = set [''a'', ''i'', ''l'', ''n'', ''o'', ''t'']" unfolding xs(3) by code_simp
    qed
    have ys': "ys = [''A'', ''I'', ''L'', ''ll'', ''n'', ''o'', ''t'']"
    proof (rule sorted_distinct_list_eq)
      show "sorted ys" by (rule ys(1))
      show "distinct ys" by (rule ys(2))
      show "sorted [''A'', ''I'', ''L'', ''ll'', ''n'', ''o'', ''t'']" by code_simp
      show "distinct [''A'', ''I'', ''L'', ''ll'', ''n'', ''o'', ''t'']" by code_simp
      show "set ys = set [''A'', ''I'', ''L'', ''ll'', ''n'', ''o'', ''t'']" unfolding ys(3) by code_simp
    qed
    show ?thesis unfolding cf xs' ys' by simp
  qed
  from t4 have d: "fst (read_phone (''sh sh sh'' @ [CHR 0x0A] @ ''q nan nan'' @ [CHR 0x0A]) [] (None, None, None) True False) = (Some [CHR ''q'', CHR 0x0A, CHR ''s'', CHR ''h'', CHR 0x0A], Some [CHR ''s'', CHR ''h'', CHR 0x0A], Some [CHR ''s'', CHR ''h'', CHR 0x0A])"
  proof (elim exE conjE)
    fix ps qs rs
    assume pf: "fst (read_phone (''sh sh sh'' @ [CHR 0x0A] @ ''q nan nan'' @ [CHR 0x0A]) [] (None, None, None) True False)
           = (Some (concat (map (\<lambda>x. x @ [CHR 0x0A]) ps)),
              Some (concat (map (\<lambda>x. x @ [CHR 0x0A]) qs)),
              Some (concat (map (\<lambda>x. x @ [CHR 0x0A]) rs)))"
      and ps: "sorted ps" "distinct ps" "set ps = {''q'', ''sh''}"
      and qs: "sorted qs" "distinct qs" "set qs = {''sh''}"
      and rs: "sorted rs" "distinct rs" "set rs = {''sh''}"
    have ps': "ps = [''q'', ''sh'']"
    proof (rule sorted_distinct_list_eq)
      show "sorted ps" by (rule ps(1))
      show "distinct ps" by (rule ps(2))
      show "sorted [''q'', ''sh'']" by code_simp
      show "distinct [''q'', ''sh'']" by code_simp
      show "set ps = set [''q'', ''sh'']" unfolding ps(3) by code_simp
    qed
    have qs': "qs = [''sh'']"
    proof (rule sorted_distinct_list_eq)
      show "sorted qs" by (rule qs(1))
      show "distinct qs" by (rule qs(2))
      show "sorted [''sh'']" by code_simp
      show "distinct [''sh'']" by code_simp
      show "set qs = set [''sh'']" unfolding qs(3) by code_simp
    qed
    have rs': "rs = [''sh'']"
    proof (rule sorted_distinct_list_eq)
      show "sorted rs" by (rule rs(1))
      show "distinct rs" by (rule rs(2))
      show "sorted [''sh'']" by code_simp
      show "distinct [''sh'']" by code_simp
      show "set rs = set [''sh'']" unfolding rs(3) by code_simp
    qed
    show ?thesis unfolding pf ps' qs' rs' by simp
  qed
  show ?thesis by (intro conjI) (rule a, rule b, rule c, rule d)
qed

section \<open>Tokenizing an utterance that collapses to nothing\<close>

lemma read_phone_collapsed_existing:
  assumes sets: "read_phone_sets (lines_of map_file) ({}, {}, {}) = Inr sets"
    and scan: "read_phone_scan map_file label_files [] = Inr trans_dict"
    and entry: "(utt_name, [t61, t48, t39]) \<in> set trans_dict"
    and empty: "t48 = [] \<or> t39 = []"
    and v48: "[] \<notin> set (retained vocab48 [])"
    and v39: "[] \<notin> set (retained vocab39 [])"
  shows "read_phone map_file label_files (Some vocab61, Some vocab48, Some vocab39) False False
           = ((Some vocab61, Some vocab48, Some vocab39), Inl KeyError)"
proof -
  let ?f = "tokenize_phone (Phone2idx_init vocab61 []) (Phone2idx_init vocab48 [])
              (Phone2idx_init vocab39 []) False"
  have e48: "Phone2idx_call (Phone2idx_init vocab48 []) [] = Inl KeyError"
    using v48 by (rule Phone2idx_call_empty)
  have e39: "Phone2idx_call (Phone2idx_init vocab39 []) [] = Inl KeyError"
    using v39 by (rule Phone2idx_call_empty)
  from e48 e39 empty have "?f [t61, t48, t39] = Inl KeyError"
    by (rule tokenize_phone_empty)
  with entry have "tokenize_all ?f trans_dict = Inl KeyError"
    by (rule tokenize_all_fails) (rule tokenize_phone_error)
  then show ?thesis
    by (simp add: read_phone_def save_phone_vocab_def sets scan split: prod.splits)
qed

text \<open>
  C10. \<open>''.split(' ')\<close> is the list with the empty string alone, so
  \<open>Phone2idx.__call__\<close> on the empty string raises KeyError for every vocabulary
  file with no blank line among the symbols it keeps. In \<open>read_phone\<close>, non-test
  mode, when both loops run through and an utterance of \<open>trans_dict\<close> has an
  empty 48-phone or 39-phone string, the call raises KeyError while tokenizing:
  with \<open>save_vocab_file\<close> set (the vocabulary files are written from the mapping
  file first), and without it for vocabulary files that exist and have no blank
  line in the 48- and 39-phone files, in particular for the files that an earlier
  call with \<open>save_vocab_file\<close> set has written. Such an entry is what
  \<open>read_phone_file\<close> stores for a label file whose 61-phone sequence maps to the
  empty sequence.
\<close>

theorem empty_phone_string_raises:
  "([] \<notin> set (retained vf rl) \<longrightarrow> Phone2idx_call (Phone2idx_init vf rl) [] = Inl KeyError) \<and>
   (read_phone_sets (lines_of map_file) ({}, {}, {}) = Inr sets \<and>
    read_phone_scan map_file label_files [] = Inr trans_dict \<and>
    (utt_name, [t61, t48, t39]) \<in> set trans_dict \<and> (t48 = [] \<or> t39 = []) \<longrightarrow>
      read_phone map_file label_files files True False
        = (save_phone_vocab True sets files, Inl KeyError)) \<and>
   (phone61_list_of (lines_of content) = Inr phone61_list \<and>
    map_phone2phone phone61_list ''phone48'' map_file = Inr [] \<and>
    read_phone_file map_file (label_path, content) trans_dict0 = Inr trans_dict1 \<longrightarrow>
      (\<exists>u t39. (u, [join '' '' phone61_list, [], t39]) \<in> set trans_dict1)) \<and>
   (read_phone_sets (lines_of map_file) ({}, {}, {}) = Inr sets \<and>
    read_phone_scan map_file label_files [] = Inr trans_dict \<and>
    (utt_name, [t61, t48, t39]) \<in> set trans_dict \<and> (t48 = [] \<or> t39 = []) \<and>
    [] \<notin> set (retained vocab48 []) \<and> [] \<notin> set (retained vocab39 []) \<longrightarrow>
      read_phone map_file label_files (Some vocab61, Some vocab48, Some vocab39) False False
        = ((Some vocab61, Some vocab48, Some vocab39), Inl KeyError)) \<and>
   (read_phone_sets (lines_of train_map_file) ({}, {}, {}) = Inr train_sets \<and>
    read_phone_sets (lines_of map_file) ({}, {}, {}) = Inr sets \<and>
    read_phone_scan map_file label_files [] = Inr trans_dict \<and>
    (utt_name, [t61, t48, t39]) \<in> set trans_dict \<and> (t48 = [] \<or> t39 = []) \<longrightarrow>
      read_phone map_file label_files
          (fst (read_phone train_map_file train_label_files files True train_is_test)) False False
        = (fst (read_phone train_map_file train_label_files files True train_is_test), Inl KeyError))"
proof (intro conjI impI)
  assume "[] \<notin> set (retained vf rl)"
  then show "Phone2idx_call (Phone2idx_init vf rl) [] = Inl KeyError"
    by (rule Phone2idx_call_empty)
next
  assume h: "read_phone_sets (lines_of map_file) ({}, {}, {}) = Inr sets \<and>
    read_phone_scan map_file label_files [] = Inr trans_dict \<and>
    (utt_name, [t61, t48, t39]) \<in> set trans_dict \<and> (t48 = [] \<or> t39 = [])"
  obtain s61 s48 s39 where sets: "sets = (s61, s48, s39)" by (cases sets)
  from h sets have "clean_symbols s61 \<and> clean_symbols s48 \<and> clean_symbols s39"
    by (intro read_phone_sets_clean [of "lines_of map_file" "{}" "{}" "{}"]) (simp_all add: clean_symbols_empty)
  then have e48: "Phone2idx_call (Phone2idx_init (write_lines (sorted_list_of_set s48)) []) [] = Inl KeyError"
    and e39: "Phone2idx_call (Phone2idx_init (write_lines (sorted_list_of_set s39)) []) [] = Inl KeyError"
    by (simp_all add: Phone2idx_sorted_empty)
  let ?f = "tokenize_phone (Phone2idx_init (write_lines (sorted_list_of_set s61)) [])
              (Phone2idx_init (write_lines (sorted_list_of_set s48)) [])
              (Phone2idx_init (write_lines (sorted_list_of_set s39)) []) False"
  from h have "?f [t61, t48, t39] = Inl KeyError"
    by (intro tokenize_phone_empty e48 e39) simp
  with h have "tokenize_all ?f trans_dict = Inl KeyError"
    by (intro tokenize_all_fails [of utt_name "[t61, t48, t39]"]) (simp_all add: tokenize_phone_error)
  with h sets show "read_phone map_file label_files files True False
        = (save_phone_vocab True sets files, Inl KeyError)"
    by (simp add: read_phone_def save_phone_vocab_def)
next
  assume h: "phone61_list_of (lines_of content) = Inr phone61_list \<and>
    map_phone2phone phone61_list ''phone48'' map_file = Inr [] \<and>
    read_phone_file map_file (label_path, content) trans_dict0 = Inr trans_dict1"
  then obtain u l39 where "trans_dict1 = AList.update u [join '' '' phone61_list, join '' '' [], join '' '' l39] trans_dict0"
    by (auto simp: read_phone_file_def split: sum.splits)
  then have "(u, [join '' '' phone61_list, [], join '' '' l39]) \<in> set trans_dict1"
    by (simp add: update_member)
  then show "\<exists>u t39. (u, [join '' '' phone61_list, [], t39]) \<in> set trans_dict1"
    by blast
next
  assume h: "read_phone_sets (lines_of map_file) ({}, {}, {}) = Inr sets \<and>
    read_phone_scan map_file label_files [] = Inr trans_dict \<and>
    (utt_name, [t61, t48, t39]) \<in> set trans_dict \<and> (t48 = [] \<or> t39 = []) \<and>
    [] \<notin> set (retained vocab48 []) \<and> [] \<notin> set (retained vocab39 [])"
  then have 1: "read_phone_sets (lines_of map_file) ({}, {}, {}) = Inr sets"
    and 2: "read_phone_scan map_file label_files [] = Inr trans_dict"
    and 3: "(utt_name, [t61, t48, t39]) \<in> set trans_dict" and 4: "t48 = [] \<or> t39 = []"
    and 5: "[] \<notin> set (retained vocab48 [])" and 6: "[] \<notin> set (retained vocab39 [])"
    by blast+
  show "read_phone map_file label_files (Some vocab61, Some vocab48, Some vocab39) False False
        = ((Some vocab61, Some vocab48, Some vocab39), Inl KeyError)"
    by (rule read_phone_collapsed_existing [OF 1 2 3 4 5 6])
next
  assume h: "read_phone_sets (lines_of train_map_file) ({}, {}, {}) = Inr train_sets \<and>
    read_phone_sets (lines_of map_file) ({}, {}, {}) = Inr sets \<and>
    read_phone_scan map_file label_files [] = Inr trans_dict \<and>
    (utt_name, [t61, t48, t39]) \<in> set trans_dict \<and> (t48 = [] \<or> t39 = [])"
  then have 0: "read_phone_sets (lines_of train_map_file) ({}, {}, {}) = Inr train_sets"
    and 1: "read_phone_sets (lines_of map_file) ({}, {}, {}) = Inr sets"
    and 2: "read_phone_scan map_file label_files [] = Inr trans_dict"
    and 3: "(utt_name, [t61, t48, t39]) \<in> set trans_dict" and 4: "t48 = [] \<or> t39 = []"
    by blast+
  obtain s61 s48 s39 where ts: "train_sets = (s61, s48, s39)" by (cases train_sets)
  from 0 ts have "clean_symbols s61 \<and> clean_symbols s48 \<and> clean_symbols s39"
    by (intro read_phone_sets_clean [of "lines_of train_map_file" "{}" "{}" "{}"]) (simp_all add: clean_symbols_empty)
  then have 5: "[] \<notin> set (retained (write_lines (sorted_list_of_set s48)) [])"
    and 6: "[] \<notin> set (retained (write_lines (sorted_list_of_set s39)) [])"
    by (simp_all add: retained_sorted_clean)
  have f: "fst (read_phone train_map_file train_label_files files True train_is_test)
      = (Some (write_lines (sorted_list_of_set s61)), Some (write_lines (sorted_list_of_set s48)),
         Some (write_lines (sorted_list_of_set s39)))"
    unfolding fst_read_phone 0 ts by (simp add: save_phone_vocab_def)
  show "read_phone map_file label_files
          (fst (read_phone train_map_file train_label_files files True train_is_test)) False False
        = (fst (read_phone train_map_file train_label_files files True train_is_test), Inl KeyError)"
    unfolding f by (rule read_phone_collapsed_existing [OF 1 2 3 4 5 6])
qed

text \<open>A mapping file with the rows \<open>sh sh sh\<close> and \<open>q nan nan\<close>, and one label
  file with the single phone \<open>q\<close>: with \<open>save_vocab_file\<close> set, with the three
  vocabulary files given, and with the files that a first call has written.\<close>

theorem empty_phone_string_raises_witness:
  "Phone2idx_call (Phone2idx_init (''sh'' @ [CHR 0x0A]) []) [] = Inl KeyError \<and>
   read_phone (''sh sh sh'' @ [CHR 0x0A] @ ''q nan nan'' @ [CHR 0x0A]) [(''timit/dr1/fcjf0/sa1.phn'', ''0 100 q'' @ [CHR 0x0A])] (None, None, None) True False = ((Some [CHR ''q'', CHR 0x0A, CHR ''s'', CHR ''h'', CHR 0x0A], Some [CHR ''s'', CHR ''h'', CHR 0x0A], Some [CHR ''s'', CHR ''h'', CHR 0x0A]), Inl KeyError) \<and>
   (\<exists>u t39. (u, [join '' '' [''q''], [], t39]) \<in> set [(''fcjf0_sa1'', [''q'', [], []])]) \<and>
   read_phone (''sh sh sh'' @ [CHR 0x0A] @ ''q nan nan'' @ [CHR 0x0A]) [(''timit/dr1/fcjf0/sa1.phn'', ''0 100 q'' @ [CHR 0x0A])] (Some [CHR ''q'', CHR 0x0A, CHR ''s'', CHR ''h'', CHR 0x0A], Some [CHR ''s'', CHR ''h'', CHR 0x0A], Some [CHR ''s'', CHR ''h'', CHR 0x0A]) False False
     = ((Some [CHR ''q'', CHR 0x0A, CHR ''s'', CHR ''h'', CHR 0x0A], Some [CHR ''s'', CHR ''h'', CHR 0x0A], Some [CHR ''s'', CHR ''h'', CHR 0x0A]), Inl KeyError) \<and>
   read_phone (''sh sh sh'' @ [CHR 0x0A] @ ''q nan nan'' @ [CHR 0x0A]) [(''timit/dr1/fcjf0/sa1.phn'', ''0 100 q'' @ [CHR 0x0A])] (fst (read_phone (''sh sh sh'' @ [CHR 0x0A] @ ''q nan nan'' @ [CHR 0x0A]) [] (None, None, None) True False)) False False
     = (fst (read_phone (''sh sh sh'' @ [CHR 0x0A] @ ''q nan nan'' @ [CHR 0x0A]) [] (None, None, None) True False), Inl KeyError)"
proof -
  note T = empty_phone_string_raises [where vf = "''sh'' @ [CHR 0x0A]" and rl = "[]" and map_file = "(''sh sh sh'' @ [CHR 0x0A] @ ''q nan nan'' @ [CHR 0x0A])"
      and sets = "({''q'', ''sh''}, {''sh''}, {''sh''})" and label_files = "[(''timit/dr1/fcjf0/sa1.phn'', ''0 100 q'' @ [CHR 0x0A])]" and trans_dict = "[(''fcjf0_sa1'', [''q'', [], []])]" and utt_name = "''fcjf0_sa1''"
      and ?t61.0 = "''q''" and ?t48.0 = "[]" and ?t39.0 = "[]" and files = "(None, None, None)"
      and content = "''0 100 q'' @ [CHR 0x0A]" and phone61_list = "[''q'']"
      and label_path = "''timit/dr1/fcjf0/sa1.phn''" and ?trans_dict0.0 = "[]" and ?trans_dict1.0 = "[(''fcjf0_sa1'', [''q'', [], []])]"
      and ?vocab61.0 = "[CHR ''q'', CHR 0x0A, CHR ''s'', CHR ''h'', CHR 0x0A]" and ?vocab48.0 = "[CHR ''s'', CHR ''h'', CHR 0x0A]" and ?vocab39.0 = "[CHR ''s'', CHR ''h'', CHR 0x0A]"
      and train_map_file = "(''sh sh sh'' @ [CHR 0x0A] @ ''q nan nan'' @ [CHR 0x0A])" and train_sets = "({''q'', ''sh''}, {''sh''}, {''sh''})" and train_label_files = "[]"
      and train_is_test = False]
  have h1: "[] \<notin> set (retained (''sh'' @ [CHR 0x0A]) [])" by code_simp
  have h2: "read_phone_sets (lines_of (''sh sh sh'' @ [CHR 0x0A] @ ''q nan nan'' @ [CHR 0x0A])) ({}, {}, {}) = Inr ({''q'', ''sh''}, {''sh''}, {''sh''})" by code_simp
  have h3: "read_phone_scan (''sh sh sh'' @ [CHR 0x0A] @ ''q nan nan'' @ [CHR 0x0A]) [(''timit/dr1/fcjf0/sa1.phn'', ''0 100 q'' @ [CHR 0x0A])] [] = Inr [(''fcjf0_sa1'', [''q'', [], []])]" by code_simp
  have h4: "save_phone_vocab True ({''q'', ''sh''}, {''sh''}, {''sh''}) (None, None, None) = (Some [CHR ''q'', CHR 0x0A, CHR ''s'', CHR ''h'', CHR 0x0A], Some [CHR ''s'', CHR ''h'', CHR 0x0A], Some [CHR ''s'', CHR ''h'', CHR 0x0A])"
    by code_simp
  have h5: "phone61_list_of (lines_of (''0 100 q'' @ [CHR 0x0A])) = Inr [''q'']" by code_simp
  have h6: "map_phone2phone [''q''] ''phone48'' (''sh sh sh'' @ [CHR 0x0A] @ ''q nan nan'' @ [CHR 0x0A]) = Inr []" by code_simp
  have h7: "read_phone_file (''sh sh sh'' @ [CHR 0x0A] @ ''q nan nan'' @ [CHR 0x0A]) (''timit/dr1/fcjf0/sa1.phn'', ''0 100 q'' @ [CHR 0x0A]) [] = Inr [(''fcjf0_sa1'', [''q'', [], []])]" by code_simp
  have h8: "(''fcjf0_sa1'', [''q'', [], []]) \<in> set [(''fcjf0_sa1'', [''q'', [], []])]" by simp
  have h9: "([]::string) = [] \<or> ([]::string) = []" by simp
  have h10: "[] \<notin> set (retained [CHR ''s'', CHR ''h'', CHR 0x0A] [])" by code_simp
  have a: "Phone2idx_call (Phone2idx_init (''sh'' @ [CHR 0x0A]) []) [] = Inl KeyError"
    by (rule T [THEN conjunct1, THEN mp, OF h1])
  have b: "read_phone (''sh sh sh'' @ [CHR 0x0A] @ ''q nan nan'' @ [CHR 0x0A]) [(''timit/dr1/fcjf0/sa1.phn'', ''0 100 q'' @ [CHR 0x0A])] (None, None, None) True False = ((Some [CHR ''q'', CHR 0x0A, CHR ''s'', CHR ''h'', CHR 0x0A], Some [CHR ''s'', CHR ''h'', CHR 0x0A], Some [CHR ''s'', CHR ''h'', CHR 0x0A]), Inl KeyError)"
    using T [THEN conjunct2, THEN conjunct1, THEN mp, OF conjI [OF h2 conjI [OF h3 conjI [OF h8 h9]]]]
    unfolding h4 .
  have c: "\<exists>u t39. (u, [join '' '' [''q''], [], t39]) \<in> set [(''fcjf0_sa1'', [''q'', [], []])]"
    by (rule T [THEN conjunct2, THEN conjunct2, THEN conjunct1, THEN mp, OF conjI [OF h5 conjI [OF h6 h7]]])
  have d: "read_phone (''sh sh sh'' @ [CHR 0x0A] @ ''q nan nan'' @ [CHR 0x0A]) [(''timit/dr1/fcjf0/sa1.phn'', ''0 100 q'' @ [CHR 0x0A])] (Some [CHR ''q'', CHR 0x0A, CHR ''s'', CHR ''h'', CHR 0x0A], Some [CHR ''s'', CHR ''h'', CHR 0x0A], Some [CHR ''s'', CHR ''h'', CHR 0x0A]) False False
     = ((Some [CHR ''q'', CHR 0x0A, CHR ''s'', CHR ''h'', CHR 0x0A], Some [CHR ''s'', CHR ''h'', CHR 0x0A], Some [CHR ''s'', CHR ''h'', CHR 0x0A]), Inl KeyError)"
    by (rule T [THEN conjunct2, THEN conjunct2, THEN conjunct2, THEN conjunct1, THEN mp,
          OF conjI [OF h2 conjI [OF h3 conjI [OF h8 conjI [OF h9 conjI [OF h10 h10]]]]]])
  have e: "read_phone (''sh sh sh'' @ [CHR 0x0A] @ ''q nan nan'' @ [CHR 0x0A]) [(''timit/dr1/fcjf0/sa1.phn'', ''0 100 q'' @ [CHR 0x0A])] (fst (read_phone (''sh sh sh'' @ [CHR 0x0A] @ ''q nan nan'' @ [CHR 0x0A]) [] (None, None, None) True False)) False False
     = (fst (read_phone (''sh sh sh'' @ [CHR 0x0A] @ ''q nan nan'' @ [CHR 0x0A]) [] (None, None, None) True False), Inl KeyError)"
    by (rule T [THEN conjunct2, THEN conjunct2, THEN conjunct2, THEN conjunct2, THEN mp,
          OF conjI [OF h2 conjI [OF h2 conjI [OF h3 conjI [OF h8 h9]]]]])
  show ?thesis by (intro conjI) (rule a, rule b, rule c, rule d, rule e)
qed

section \<open>Tokenizing a corpus with its own vocabulary\<close>

lemma read_vocab_keys:
  "fst ` set (fst (read_vocab ls rl m n))
     = fst ` set m \<union> set (filter (\<lambda>char. char \<notin> set rl) (map strip ls))"
  by (induction ls arbitrary: m n) (auto simp: Let_def dom_update)

lemma vocab_dict_has_retained:
  assumes "k \<in> set (retained vf rl)"
  shows "map_of (add_sos_eos (read_vocab (lines_of vf) rl [] 0)) k \<noteq> None"
proof -
  obtain m n where r: "read_vocab (lines_of vf) rl [] 0 = (m, n)" by (cases "read_vocab (lines_of vf) rl [] 0")
  from assms read_vocab_keys [of "lines_of vf" rl "[]" 0] r have "k \<in> fst ` set m"
    by (simp add: retained_def)
  then have "k \<in> fst ` set (add_sos_eos (m, n))"
    by (simp add: add_sos_eos_def dom_update)
  then show ?thesis unfolding r by (simp add: map_of_eq_None_iff)
qed

lemma space_to_mark_chars: "c \<in> set (space_to_mark t) \<Longrightarrow> \<not> isspace c"
proof -
  have "\<not> isspace (CHR ''_'')" by (simp add: isspace_def)
  moreover assume "c \<in> set (space_to_mark t)"
  ultimately show ?thesis by (auto simp: space_to_mark_def SPACE_def split: if_splits)
qed

lemma update_subset: "set (AList.update k v al) \<subseteq> insert (k, v) (set al)"
  by (induction al) auto

lemma read_char_file_ok:
  assumes "read_char_file lf st = Inr st'" and "char_scan_ok st"
  shows "char_scan_ok st'"
proof -
  obtain label_path content where lf: "lf = (label_path, content)" by (cases lf)
  obtain td cs ccs where st: "st = (td, cs, ccs)" by (cases st)
  from assms(1) lf st obtain utt_name transcript ccs' where
    st': "st' = (AList.update utt_name (space_to_mark transcript) td,
                 fold (\<lambda>c. insert [c]) (space_to_mark transcript) cs, ccs')"
    by (auto simp: read_char_file_def Let_def split: list.splits sum.splits)
  let ?t = "space_to_mark transcript"
  let ?cs = "cs \<union> (\<lambda>c. [c]) ` set ?t"
  from assms(2) st have fin: "finite cs" and ws: "\<forall>x\<in>cs. \<forall>c\<in>set x. \<not> isspace c"
    and old: "\<forall>ut\<in>set td. \<forall>c\<in>set (snd ut). [c] \<in> cs"
    by (simp_all add: char_scan_ok_def)
  have 1: "finite ?cs" using fin by simp
  have 2: "\<forall>x\<in>?cs. \<forall>c\<in>set x. \<not> isspace c"
    using ws space_to_mark_chars [of _ transcript] by auto
  have 3: "\<forall>ut\<in>set (AList.update utt_name ?t td). \<forall>c\<in>set (snd ut). [c] \<in> ?cs"
  proof
    fix ut assume "ut \<in> set (AList.update utt_name ?t td)"
    with update_subset [of utt_name ?t td] have "ut = (utt_name, ?t) \<or> ut \<in> set td" by auto
    then show "\<forall>c\<in>set (snd ut). [c] \<in> ?cs"
    proof
      assume "ut = (utt_name, ?t)"
      then show ?thesis by simp
    next
      assume "ut \<in> set td"
      with old show ?thesis by blast
    qed
  qed
  from 1 2 3 show ?thesis unfolding st' by (simp add: char_scan_ok_def fold_insert_image)
qed

lemma read_char_scan_ok:
  assumes "read_char_scan lfs st = Inr st'" and "char_scan_ok st"
  shows "char_scan_ok st'"
  using assms
proof (induction lfs arbitrary: st)
  case Nil
  then show ?case by simp
next
  case (Cons lf lfs)
  from Cons.prems(1) obtain st1 where 1: "read_char_file lf st = Inr st1"
    and 2: "read_char_scan lfs st1 = Inr st'"
    by (auto split: sum.splits)
  from 1 Cons.prems(2) have "char_scan_ok st1" by (rule read_char_file_ok)
  with 2 show ?case by (rule Cons.IH)
qed

text \<open>In plain mode the property of C1 holds: every transcript that the scan of
  \<open>read_char\<close> stores is tokenized, by the \<open>Char2idx\<close> loaded from the character
  vocabulary file that \<open>read_char\<close> writes for the same corpus, without a
  KeyError.\<close>

lemma plain_mode_total:
  assumes scan: "read_char_scan label_files ([], {}, {}) = Inr (trans_dict, char_set, char_capital_set)"
    and ut: "(utt_name, transcript) \<in> set trans_dict"
  shows "\<exists>index_list.
           Char2idx_call (Char2idx_init (write_lines (char_list char_set)) ''_'' False False []) transcript
             = Inr index_list"
proof -
  have "char_scan_ok ([], {}, {})" by (simp add: char_scan_ok_def)
  with scan have "char_scan_ok (trans_dict, char_set, char_capital_set)" by (rule read_char_scan_ok)
  then have fin: "finite char_set" and ws: "\<forall>x\<in>char_set. \<forall>c\<in>set x. \<not> isspace c"
    and all: "\<forall>ut\<in>set trans_dict. \<forall>c\<in>set (snd ut). [c] \<in> char_set"
    by (simp_all add: char_scan_ok_def)
  have m: "\<not> isspace (CHR ''_'')" "\<not> isspace (CHR 0x27)" by (simp_all add: isspace_def)
  from fin have set: "set (char_list char_set) = char_set \<union> {SPACE, APOSTROPHE}"
    by (auto simp: char_list_def)
  with ws m have "\<forall>x\<in>set (char_list char_set). \<forall>c\<in>set x. \<not> isspace c"
    by (auto simp: SPACE_def APOSTROPHE_def)
  then have ret: "retained (write_lines (char_list char_set)) [] = char_list char_set"
    by (rule retained_write_lines)
  let ?m = "add_sos_eos (read_vocab (lines_of (write_lines (char_list char_set))) [] [] 0)"
  have "\<forall>x\<in>set (map (\<lambda>c. [c]) transcript). map_of ?m x \<noteq> None"
  proof
    fix x assume "x \<in> set (map (\<lambda>c. [c]) transcript)"
    then obtain c where "c \<in> set transcript" "x = [c]" by auto
    with all ut have "x \<in> char_set" by fastforce
    with set ret have "x \<in> set (retained (write_lines (char_list char_set)) [])" by simp
    then show "map_of ?m x \<noteq> None" by (rule vocab_dict_has_retained)
  qed
  from lookup_all_present [OF this] show ?thesis
    by (auto simp: Char2idx_call_def Char2idx_init_def)
qed

text \<open>
  C1 does not hold of the code in capital-divided mode. For the corpus of one
  label file with the transcript \<open>a\<close>, \<open>read_char\<close> writes the character
  vocabulary \<open>a\<close>, \<open>_\<close>, apostrophe and the capital-divided vocabulary \<open>A\<close>,
  apostrophe, and then raises KeyError while tokenizing that same transcript: the
  plain call returns \<open>[0]\<close>, the capital-divided call looks up the lower-case
  \<open>a\<close>, which the vocabulary scan never added for a word of one letter. The
  same happens for the transcript \<open>I do.\<close>
\<close>

theorem own_vocabulary_key_error:
  "read_char [(''timit/dr1/fcjf0/sa1.txt'', ''0 100 a'' @ [CHR 0x0A])] (None, None) True False
     = ((Some (''a'' @ [CHR 0x0A] @ ''_'' @ [CHR 0x0A] @ [CHR 0x27, CHR 0x0A]),
         Some (''A'' @ [CHR 0x0A] @ [CHR 0x27, CHR 0x0A])),
        Inl KeyError) \<and>
   Char2idx_call (Char2idx_init (''a'' @ [CHR 0x0A] @ ''_'' @ [CHR 0x0A] @ [CHR 0x27, CHR 0x0A]) ''_'' False False [])
     ''a'' = Inr [0] \<and>
   Char2idx_call (Char2idx_init (''A'' @ [CHR 0x0A] @ [CHR 0x27, CHR 0x0A]) ''_'' True False [])
     ''a'' = Inl KeyError \<and>
   snd (read_char [(''timit/dr1/fcjf0/sx1.txt'', ''0 100 I do.'' @ [CHR 0x0A])] (None, None) True False)
     = Inl KeyError"
  by code_simp

end
